theory Spec2Isabelle
  imports Main
begin

section \<open>Data model of Cache.cpp\<close>

text \<open>
  The ways in which the program can stop without a result. \<open>OutOfRange\<close> is the
  \<open>std::out_of_range\<close> thrown by \<open>std::string::substr\<close> (never caught, so the
  process terminates); \<open>DivByZero\<close> is an integer division or remainder by zero;
  \<open>UndefinedBehaviour\<close> stands for a read through an uninitialised or out-of-bounds
  index, a dereferenced end iterator and \<open>(size_t)std::log2(0)\<close>; \<open>AllocFailure\<close> is
  a string that is asked to grow beyond memory.
\<close>

datatype error = OutOfRange | DivByZero | UndefinedBehaviour | AllocFailure

text \<open>
  Class \<open>Access\<close> (lines 88-128). The fields are named after the accessors of the class,
  \<open>getOp\<close> for \<open>op_\<close>, \<open>Valid\<close> for \<open>valid_\<close> and so on. Ages and the counters of the
  cache are \<open>size_t\<close> in the source and natural numbers here: each is incremented at most
  once per processed access, and the accesses are all held in the vector \<open>trace_\<close> in
  memory, so none of them can reach \<open>2 ^ 64\<close>.
\<close>

record Access =
  getOp :: string
  getRefSize :: string
  getAddress :: string
  getAge :: nat
  getOffset :: nat
  getIndex :: nat
  getTag :: nat
  Valid :: bool
  Dirty :: bool

text \<open>\<open>Access::Access()\<close>, line 559: the content of a slot of a freshly resized set.\<close>

definition Access_default :: Access where
  "Access_default =
     \<lparr>getOp = [], getRefSize = [], getAddress = [], getAge = 0, getOffset = 0,
      getIndex = 0, getTag = 0, Valid = False, Dirty = False\<rparr>"

text \<open>\<open>Access::Access(std::string)\<close>, line 561: valid from the start, clean, age 0.\<close>

definition Access_op :: "string \<Rightarrow> Access" where
  "Access_op s =
     \<lparr>getOp = s, getRefSize = [], getAddress = [], getAge = 0, getOffset = 0,
      getIndex = 0, getTag = 0, Valid = True, Dirty = False\<rparr>"

text \<open>Class \<open>Cache\<close> (lines 32-86); \<open>cache\<close>, \<open>trace\<close> and \<open>hitMiss\<close> are its three vectors.\<close>

record Cache =
  numBlocks :: nat
  numSets :: nat
  lineSize :: nat
  setSize :: nat
  cacheSize :: nat
  offsetBits :: nat
  indexBits :: nat
  tagBits :: nat
  hits :: nat
  accesses :: nat
  cache :: "Access list list"
  trace :: "Access list"
  hitMiss :: "bool list"

definition getIndexBits :: "Cache \<Rightarrow> nat" where
  "getIndexBits c = indexBits c"

definition getTagBits :: "Cache \<Rightarrow> nat" where
  "getTagBits c = tagBits c"

definition getOffsetBits :: "Cache \<Rightarrow> nat" where
  "getOffsetBits c = offsetBits c"

section \<open>Construction\<close>

text \<open>Arithmetic of \<open>size_t\<close> (64 bits) where the source subtracts, adds or multiplies.\<close>

definition sub_size_t :: "nat \<Rightarrow> nat \<Rightarrow> nat" where
  "sub_size_t a b = (a + 2 ^ 64 - b mod 2 ^ 64) mod 2 ^ 64"

definition add_size_t :: "nat \<Rightarrow> nat \<Rightarrow> nat" where
  "add_size_t a b = (a + b) mod 2 ^ 64"

definition mul_size_t :: "nat \<Rightarrow> nat \<Rightarrow> nat" where
  "mul_size_t a b = (a * b) mod 2 ^ 64"

text \<open>
  \<open>(size_t)std::log2(x)\<close> for \<open>x > 0\<close>: the integer part of the binary logarithm. The
  source computes it in double precision, which is exact on powers of two; just below a
  large power of two the double result can round up to the next integer, where this
  function does not follow it. The theorems below take \<open>log2\<close> of powers of two and
  of small numbers only. At \<open>x = 0\<close> the source converts minus infinity to \<open>size_t\<close>,
  which the constructor below reports as an error before \<open>log2\<close> is used.
\<close>

fun log2 :: "nat \<Rightarrow> nat" where
  "log2 n = (if n < 2 then 0 else Suc (log2 (n div 2)))"

declare log2.simps [simp del]

text \<open>\<open>Cache::calcNumSets\<close>, lines 277-280, with the division by zero made explicit.\<close>

definition calcNumSets :: "nat \<Rightarrow> nat \<Rightarrow> nat \<Rightarrow> error + nat" where
  "calcNumSets c s l =
     (if mul_size_t s l = 0 then Inl DivByZero else Inr (c div mul_size_t s l))"

text \<open>
  \<open>Cache::Cache\<close>, lines 134-155. The three numbers are read from the configuration file
  in this order: set size (associativity), line size, cache size; each is a \<open>size_t\<close>,
  so below \<open>2 ^ 64\<close>. The product in \<open>calcNumSets\<close> is 0 when either factor is, and
  the division then stops the program before any \<open>log2\<close> is taken; \<open>log2\<close> of a
  cache size 0 is the remaining undefined case. The memory that the sets take is not
  modelled.
\<close>

definition Cache_ctor :: "nat \<Rightarrow> nat \<Rightarrow> nat \<Rightarrow> error + Cache" where
  "Cache_ctor s l c =
     (case calcNumSets c s l of
        Inl e \<Rightarrow> Inl e
      | Inr n \<Rightarrow>
          if c = 0 \<or> l = 0 \<or> s = 0 then Inl UndefinedBehaviour
          else Inr \<lparr>numBlocks = mul_size_t n s, numSets = n, lineSize = l, setSize = s,
                    cacheSize = c, offsetBits = log2 l, indexBits = log2 c,
                    tagBits = add_size_t (sub_size_t 32 (log2 c)) (log2 s),
                    hits = 0, accesses = 0,
                    cache = replicate n (replicate s Access_default),
                    trace = [], hitMiss = []\<rparr>)"

section \<open>Address decoding\<close>

text \<open>
  \<open>Cache::parseHex\<close>, lines 301-378: four bits for each of the sixteen characters
  \<open>0\<close>-\<open>9\<close>, \<open>a\<close>-\<open>f\<close>; the chain of comparisons has no final \<open>else\<close>, so any other
  character adds nothing to the output.
\<close>

definition hexBits :: "char \<Rightarrow> string" where
  "hexBits ch =
     (if ch = CHR ''0'' then ''0000''
      else if ch = CHR ''1'' then ''0001''
      else if ch = CHR ''2'' then ''0010''
      else if ch = CHR ''3'' then ''0011''
      else if ch = CHR ''4'' then ''0100''
      else if ch = CHR ''5'' then ''0101''
      else if ch = CHR ''6'' then ''0110''
      else if ch = CHR ''7'' then ''0111''
      else if ch = CHR ''8'' then ''1000''
      else if ch = CHR ''9'' then ''1001''
      else if ch = CHR ''a'' then ''1010''
      else if ch = CHR ''b'' then ''1011''
      else if ch = CHR ''c'' then ''1100''
      else if ch = CHR ''d'' then ''1101''
      else if ch = CHR ''e'' then ''1110''
      else if ch = CHR ''f'' then ''1111''
      else [])"

primrec parseHex :: "string \<Rightarrow> string" where
  "parseHex [] = []"
| "parseHex (ch # s) = hexBits ch @ parseHex s"

text \<open>
  \<open>Cache::binStringToInt\<close>, lines 283-298: the loop walks the string from its last
  character to its first, \<open>i\<close> counting the power of two. Every string it is given in
  this program has at most 63 characters, so \<open>num\<close> stays below \<open>2 ^ 64\<close>.
\<close>

fun binStringToInt_loop :: "string \<Rightarrow> nat \<Rightarrow> nat \<Rightarrow> nat" where
  "binStringToInt_loop [] i num = num"
| "binStringToInt_loop (ch # r) i num =
     binStringToInt_loop r (Suc i) (if ch = CHR ''1'' then num + 2 ^ i else num)"

definition binStringToInt :: "string \<Rightarrow> nat" where
  "binStringToInt s = binStringToInt_loop (rev s) 0 0"

text \<open>
  \<open>std::string::substr(pos, n)\<close>: throws \<open>std::out_of_range\<close> when \<open>pos\<close> is beyond the
  end of the string, and otherwise returns at most \<open>n\<close> characters from \<open>pos\<close>.
\<close>

definition substr :: "string \<Rightarrow> nat \<Rightarrow> nat \<Rightarrow> error + string" where
  "substr s pos n = (if length s < pos then Inl OutOfRange else Inr (take n (drop pos s)))"

text \<open>
  The local variable \<open>blockNum\<close> of \<open>Cache::calcIndex\<close> (lines 246-252): the field of
  \<open>indexBits\<close> bits that ends where the offset field begins, before the reduction.
\<close>

definition blockNum :: "Cache \<Rightarrow> string \<Rightarrow> error + nat" where
  "blockNum c s =
     (let b = parseHex s;
          indexStart = sub_size_t (sub_size_t 32 (offsetBits c)) (indexBits c)
      in case substr b indexStart (indexBits c) of
           Inl e \<Rightarrow> Inl e
         | Inr indexStr \<Rightarrow> Inr (binStringToInt indexStr))"

text \<open>\<open>Cache::calcIndex\<close>, lines 244-255.\<close>

definition calcIndex :: "Cache \<Rightarrow> string \<Rightarrow> error + nat" where
  "calcIndex c s =
     (case blockNum c s of
        Inl e \<Rightarrow> Inl e
      | Inr n \<Rightarrow> if numSets c = 0 then Inl DivByZero else Inr (n mod numSets c))"

text \<open>\<open>Cache::calcTag\<close>, lines 257-264.\<close>

definition calcTag :: "Cache \<Rightarrow> string \<Rightarrow> error + nat" where
  "calcTag c s =
     (case substr (parseHex s) 0 (tagBits c) of
        Inl e \<Rightarrow> Inl e
      | Inr tagStr \<Rightarrow> Inr (binStringToInt tagStr))"

text \<open>\<open>Cache::calcOffset\<close>, lines 266-274.\<close>

definition calcOffset :: "Cache \<Rightarrow> string \<Rightarrow> error + nat" where
  "calcOffset c s =
     (let b = parseHex s; offsetStart = sub_size_t 32 (offsetBits c)
      in case substr b offsetStart (offsetBits c) of
           Inl e \<Rightarrow> Inl e
         | Inr offsetStr \<Rightarrow> Inr (binStringToInt offsetStr))"

text \<open>
  \<open>Access::setAddress\<close>, lines 567-582. \<open>8 - t.length()\<close> is a \<open>size_t\<close>: for a string
  of more than eight characters it wraps around to almost \<open>2 ^ 64\<close>, and the loop asks
  for that many zeros in front of the address, more than any memory holds.
\<close>

definition setAddress :: "Access \<Rightarrow> string \<Rightarrow> error + Access" where
  "setAddress a t =
     (if 8 < length t then Inl AllocFailure
      else Inr (a\<lparr>getAddress := replicate (sub_size_t 8 (length t)) CHR ''0'' @ t\<rparr>))"

text \<open>
  Lines 201-205 of \<open>Cache::operator()\<close>: the address is padded, then index, offset and
  tag are computed from it, in this order; the first exception ends the program.
\<close>

definition decodeAddress :: "Cache \<Rightarrow> Access \<Rightarrow> string \<Rightarrow> error + Access" where
  "decodeAddress c a t =
     (case setAddress a t of
        Inl e \<Rightarrow> Inl e
      | Inr a1 \<Rightarrow>
          (case calcIndex c (getAddress a1) of
             Inl e \<Rightarrow> Inl e
           | Inr i \<Rightarrow>
               (case calcOffset c (getAddress a1) of
                  Inl e \<Rightarrow> Inl e
                | Inr off \<Rightarrow>
                    (case calcTag c (getAddress a1) of
                       Inl e \<Rightarrow> Inl e
                     | Inr tg \<Rightarrow> Inr (a1\<lparr>getIndex := i, getOffset := off, getTag := tg\<rparr>)))))"

section \<open>Operations on one set\<close>

definition Access_addAge :: "Access \<Rightarrow> Access" where
  "Access_addAge a = a\<lparr>getAge := getAge a + 1\<rparr>"

definition setValid :: "Access \<Rightarrow> Access" where
  "setValid a = a\<lparr>Valid := True\<rparr>"

definition setDirty :: "Access \<Rightarrow> Access" where
  "setDirty a = a\<lparr>Dirty := True\<rparr>"

text \<open>
  \<open>Cache::getOldest\<close>, lines 380-395. The local \<open>oldest\<close> has no initial value: it is
  \<open>None\<close> until the loop assigns it, and returning it unassigned is \<open>None\<close>.
\<close>

fun getOldest_loop :: "Access list \<Rightarrow> nat \<Rightarrow> nat \<Rightarrow> nat option \<Rightarrow> nat option" where
  "getOldest_loop [] i age oldest = oldest"
| "getOldest_loop (a # r) i age oldest =
     (if Valid a \<and> age < getAge a then getOldest_loop r (Suc i) (getAge a) (Some i)
      else getOldest_loop r (Suc i) age oldest)"

definition getOldest :: "Cache \<Rightarrow> nat \<Rightarrow> nat option" where
  "getOldest c t = getOldest_loop (cache c ! t) 0 0 None"

text \<open>\<open>Cache::addAge\<close>, lines 396-405.\<close>

primrec addAge_loop :: "Access list \<Rightarrow> Access list" where
  "addAge_loop [] = []"
| "addAge_loop (a # r) = (if Valid a then Access_addAge a else a) # addAge_loop r"

definition addAge :: "Cache \<Rightarrow> nat \<Rightarrow> Cache" where
  "addAge c t = c\<lparr>cache := (cache c)[t := addAge_loop (cache c ! t)]\<rparr>"

text \<open>\<open>Cache::isFull\<close>, lines 407-418.\<close>

primrec isFull_loop :: "Access list \<Rightarrow> bool" where
  "isFull_loop [] = True"
| "isFull_loop (a # r) = (if \<not> Valid a then False else isFull_loop r)"

definition isFull :: "Cache \<Rightarrow> nat \<Rightarrow> bool" where
  "isFull c t = isFull_loop (cache c ! t)"

text \<open>\<open>Cache::Insert\<close>, lines 420-431: the result and the set after the call.\<close>

primrec Insert_loop :: "Access list \<Rightarrow> Access \<Rightarrow> bool \<times> Access list" where
  "Insert_loop [] a = (False, [])"
| "Insert_loop (x # r) a =
     (if \<not> Valid x then (True, a # r)
      else (fst (Insert_loop r a), x # snd (Insert_loop r a)))"

definition Insert :: "Cache \<Rightarrow> nat \<Rightarrow> Access \<Rightarrow> bool \<times> Cache" where
  "Insert c t a =
     (fst (Insert_loop (cache c ! t) a),
      c\<lparr>cache := (cache c)[t := snd (Insert_loop (cache c ! t) a)]\<rparr>)"

section \<open>Read and Write\<close>

text \<open>The scan of \<open>Cache::Read\<close>, lines 440-448: is there a valid slot with this tag?\<close>

primrec Read_scan :: "Access list \<Rightarrow> nat \<Rightarrow> bool" where
  "Read_scan [] tg = False"
| "Read_scan (a # r) tg = (if Valid a \<and> getTag a = tg then True else Read_scan r tg)"

text \<open>
  \<open>Cache::Read\<close>, lines 433-467. The argument is a reference to an element of \<open>trace_\<close>,
  which \<open>setValid\<close> changes: the result holds the outcome, the access after the call and
  the cache after the call. Indexing \<open>cache_\<close> beyond its size is undefined behaviour.
\<close>

definition Read :: "Cache \<Rightarrow> Access \<Rightarrow> error + (bool \<times> Access \<times> Cache)" where
  "Read c r =
     (let t = getIndex r in
      if length (cache c) \<le> t then Inl UndefinedBehaviour
      else
        let c1 = addAge c t in
        if Read_scan (cache c1 ! t) (getTag r)
        then Inr (True, r, c1\<lparr>hitMiss := hitMiss c1 @ [True]\<rparr>)
        else
          let r1 = setValid r;
              c2 = c1\<lparr>hitMiss := hitMiss c1 @ [False]\<rparr>
          in if isFull c2 t
             then (case getOldest c2 t of
                     None \<Rightarrow> Inl UndefinedBehaviour
                   | Some j \<Rightarrow>
                       Inr (False, r1, c2\<lparr>cache := (cache c2)[t := (cache c2 ! t)[j := r1]]\<rparr>))
             else Inr (False, r1, snd (Insert c2 t r1)))"

text \<open>
  The scan of \<open>Cache::Write\<close>, lines 476-485: the set with the first matching valid slot
  marked dirty, or \<open>None\<close> when no valid slot has the tag.
\<close>

primrec Write_scan :: "Access list \<Rightarrow> nat \<Rightarrow> Access list option" where
  "Write_scan [] tg = None"
| "Write_scan (a # r) tg =
     (if Valid a \<and> getTag a = tg then Some (setDirty a # r)
      else map_option ((#) a) (Write_scan r tg))"

text \<open>\<open>Cache::Write\<close>, lines 468-505.\<close>

definition Write :: "Cache \<Rightarrow> Access \<Rightarrow> error + (bool \<times> Access \<times> Cache)" where
  "Write c w =
     (let t = getIndex w in
      if length (cache c) \<le> t then Inl UndefinedBehaviour
      else
        let c1 = addAge c t in
        case Write_scan (cache c1 ! t) (getTag w) of
          Some s \<Rightarrow>
            Inr (True, w, c1\<lparr>cache := (cache c1)[t := s], hitMiss := hitMiss c1 @ [True]\<rparr>)
        | None \<Rightarrow>
            let w1 = setValid w;
                c2 = c1\<lparr>hitMiss := hitMiss c1 @ [False]\<rparr>
            in if isFull c2 t
               then (case getOldest c2 t of
                       None \<Rightarrow> Inl UndefinedBehaviour
                     | Some j \<Rightarrow>
                         Inr (False, w1, c2\<lparr>cache := (cache c2)[t := (cache c2 ! t)[j := w1]]\<rparr>))
               else Inr (False, w1, snd (Insert c2 t w1)))"

section \<open>Processing a trace\<close>

text \<open>
  The tokens of one line as \<open>boost::tokenizer\<close> with \<open>boost::char_separator<char>(":")\<close>
  yields them (library code, described by its documentation): the line is cut at every
  colon, the colons are dropped and so are empty tokens.
\<close>

primrec cutAt :: "char \<Rightarrow> string \<Rightarrow> string \<Rightarrow> string list" where
  "cutAt d [] cur = [rev cur]"
| "cutAt d (x # r) cur = (if x = d then rev cur # cutAt d r [] else cutAt d r (x # cur))"

definition tokens :: "string \<Rightarrow> string list" where
  "tokens s = filter (\<lambda>t. t \<noteq> []) (cutAt CHR '':'' s [])"

text \<open>
  The body of the first loop of \<open>Cache::operator()\<close>, lines 177-209, for one line of
  the trace file: \<open>None\<close> for a line without tokens, which adds nothing to \<open>trace_\<close>.
  A first token other than \<open>R\<close> and \<open>W\<close> leaves \<open>op\<close> empty, and the record is built
  all the same. Lines 195-201 step the iterator without a check: a line with fewer than
  three tokens dereferences the end iterator.
\<close>

definition parseLine :: "Cache \<Rightarrow> string \<Rightarrow> error + Access option" where
  "parseLine c s =
     (case tokens s of
        [] \<Rightarrow> Inr None
      | tk # ts \<Rightarrow>
          let op = (if tk = ''R'' then ''Read'' else if tk = ''W'' then ''Write'' else []);
              a = Access_op op
          in (case ts of
                [] \<Rightarrow> Inl UndefinedBehaviour
              | refSize # ts' \<Rightarrow>
                  (case ts' of
                     [] \<Rightarrow> Inl UndefinedBehaviour
                   | addr # _ \<Rightarrow>
                       (case decodeAddress c (a\<lparr>getRefSize := refSize\<rparr>) addr of
                          Inl e \<Rightarrow> Inl e
                        | Inr a' \<Rightarrow> Inr (Some a')))))"

text \<open>The first loop of \<open>Cache::operator()\<close>, lines 175-210, over the lines read.\<close>

fun parseLines :: "Cache \<Rightarrow> string list \<Rightarrow> error + Cache" where
  "parseLines c [] = Inr c"
| "parseLines c (s # ls) =
     (case parseLine c s of
        Inl e \<Rightarrow> Inl e
      | Inr None \<Rightarrow> parseLines c ls
      | Inr (Some a) \<Rightarrow> parseLines (c\<lparr>trace := trace c @ [a]\<rparr>) ls)"

text \<open>
  The body of the second loop, lines 214-239, for position \<open>i\<close> of \<open>trace_\<close>. \<open>Read\<close>
  and \<open>Write\<close> work on a reference to \<open>trace_[i]\<close>, so the access as they leave it is
  stored back. A record whose operation is neither \<open>Read\<close> nor \<open>Write\<close> is passed over.
\<close>

definition processOne :: "Cache \<Rightarrow> nat \<Rightarrow> error + Cache" where
  "processOne c i =
     (let op = getOp (trace c ! i) in
      if op = ''Read'' then
        (case Read c (trace c ! i) of
           Inl e \<Rightarrow> Inl e
         | Inr (h, a, c') \<Rightarrow>
             let c1 = c'\<lparr>trace := (trace c')[i := a]\<rparr> in
             if h then Inr (c1\<lparr>hits := hits c1 + 1, accesses := accesses c1 + 1\<rparr>)
             else Inr (c1\<lparr>accesses := accesses c1 + 1\<rparr>))
      else if op = ''Write'' then
        (case Write c (trace c ! i) of
           Inl e \<Rightarrow> Inl e
         | Inr (h, a, c') \<Rightarrow>
             let c1 = c'\<lparr>trace := (trace c')[i := a]\<rparr> in
             if h then Inr (c1\<lparr>hits := hits c1 + 1, accesses := accesses c1 + 1\<rparr>)
             else Inr (c1\<lparr>accesses := accesses c1 + 1\<rparr>))
      else Inr c)"

text \<open>
  The second loop, lines 212-240, over the positions it visits. No step changes the
  length of \<open>trace_\<close> (lemma \<open>processOne_trace_length\<close>), so the positions are those of
  the trace at the start of the loop.
\<close>

fun processLoop :: "Cache \<Rightarrow> nat list \<Rightarrow> error + Cache" where
  "processLoop c [] = Inr c"
| "processLoop c (i # is) =
     (case processOne c i of
        Inl e \<Rightarrow> Inl e
      | Inr c' \<Rightarrow> processLoop c' is)"

text \<open>\<open>Cache::operator()\<close>, lines 160-242, from the lines read from the trace file on.\<close>

definition operator_call :: "Cache \<Rightarrow> string list \<Rightarrow> error + Cache" where
  "operator_call c ls =
     (case parseLines c ls of
        Inl e \<Rightarrow> Inl e
      | Inr c1 \<Rightarrow> processLoop c1 [0..<length (trace c1)])"

text \<open>
  \<open>main\<close>, lines 606-607: the cache is built from the three numbers of the configuration
  file and then called on the lines of the trace file.
\<close>

definition simulate :: "nat \<Rightarrow> nat \<Rightarrow> nat \<Rightarrow> string list \<Rightarrow> error + Cache" where
  "simulate s l c ls =
     (case Cache_ctor s l c of
        Inl e \<Rightarrow> Inl e
      | Inr c0 \<Rightarrow> operator_call c0 ls)"

text \<open>
  The loop of \<open>Cache::Display\<close>, lines 523-541: one row for every record of \<open>trace_\<close>,
  with the outcome read from \<open>hitMiss_\<close> at the position of the record. \<open>hitMiss_\<close> is
  a \<open>std::vector\<close> read with \<open>operator[]\<close>: at a position outside it the behaviour is
  undefined. A row is kept as the position, the record and the outcome; the layout of
  the text and the summary that follows (lines 543-552) are left out.
\<close>

primrec Display_loop :: "Cache \<Rightarrow> nat list \<Rightarrow> error + (nat \<times> Access \<times> bool) list" where
  "Display_loop c [] = Inr []"
| "Display_loop c (n # ns) =
     (if length (hitMiss c) \<le> n then Inl UndefinedBehaviour
      else case Display_loop c ns of
             Inl e \<Rightarrow> Inl e
           | Inr rows \<Rightarrow> Inr ((n, trace c ! n, hitMiss c ! n) # rows))"

definition Display :: "Cache \<Rightarrow> error + (nat \<times> Access \<times> bool) list" where
  "Display c = Display_loop c [0..<length (trace c)]"

text \<open>\<open>main\<close>, lines 606-608: the simulation, then \<open>Display\<close> on the cache it leaves.\<close>

definition simulate_Display ::
  "nat \<Rightarrow> nat \<Rightarrow> nat \<Rightarrow> string list \<Rightarrow> error + (nat \<times> Access \<times> bool) list" where
  "simulate_Display s l c ls =
     (case simulate s l c ls of
        Inl e \<Rightarrow> Inl e
      | Inr k \<Rightarrow> Display k)"

section \<open>Notions used in the statements\<close>

text \<open>
  A valid configuration: associativity, line size and cache size are powers of two that
  a \<open>size_t\<close> holds, the cache has at least one set, and the offset and the set index
  of an address take at most 32 bits together (the number of sets times the line size,
  which is the cache size divided by the associativity, is at most \<open>2 ^ 32\<close>).
\<close>

definition is_pow2 :: "nat \<Rightarrow> bool" where
  "is_pow2 n = (2 ^ log2 n = n)"

definition valid_config :: "nat \<Rightarrow> nat \<Rightarrow> nat \<Rightarrow> bool" where
  "valid_config s l c =
     (is_pow2 s \<and> is_pow2 l \<and> is_pow2 c \<and> s * l \<le> c \<and> c \<le> 2 ^ 32 * s \<and> c < 2 ^ 64)"

text \<open>The trace of the example in the specification, one string per line of the file.\<close>

definition example_trace :: "string list" where
  "example_trace = [''R:4:00000000'', ''R:4:00000010'', ''R:4:00000000'']"

text \<open>
  The sixteen characters that \<open>parseHex\<close> decodes, the value of such a digit (its place
  among them), the value of an address written with them, and the number of characters
  of a string that \<open>parseHex\<close> does not decode.
\<close>

definition hexChars :: string where
  "hexChars = ''0123456789abcdef''"

definition knownDigit :: "char \<Rightarrow> bool" where
  "knownDigit ch = (ch \<in> set hexChars)"

primrec posOf :: "char \<Rightarrow> string \<Rightarrow> nat" where
  "posOf ch [] = 0"
| "posOf ch (x # r) = (if x = ch then 0 else Suc (posOf ch r))"

definition digitVal :: "char \<Rightarrow> nat" where
  "digitVal ch = posOf ch hexChars"

definition addrValue :: "string \<Rightarrow> nat" where
  "addrValue s = foldl (\<lambda>v ch. 16 * v + digitVal ch) 0 s"

definition unknownCount :: "string \<Rightarrow> nat" where
  "unknownCount s = length (filter (\<lambda>ch. \<not> knownDigit ch) s)"

text \<open>
  The number whose binary digits are those of a tag, then \<open>idxw\<close> digits of an index,
  then \<open>offw\<close> digits of an offset.
\<close>

definition recombine :: "nat \<Rightarrow> nat \<Rightarrow> nat \<Rightarrow> nat \<Rightarrow> nat \<Rightarrow> nat" where
  "recombine idxw offw tg idx off = tg * 2 ^ (idxw + offw) + idx * 2 ^ offw + off"

text \<open>
  The first valid slot of a set with a given tag, and the first slot that is not valid:
  the positions at which the scans of \<open>Read\<close>, \<open>Write\<close> and \<open>Insert\<close> stop.
\<close>

primrec firstMatch :: "Access list \<Rightarrow> nat \<Rightarrow> nat" where
  "firstMatch [] tg = 0"
| "firstMatch (a # r) tg = (if Valid a \<and> getTag a = tg then 0 else Suc (firstMatch r tg))"

primrec firstFree :: "Access list \<Rightarrow> nat" where
  "firstFree [] = 0"
| "firstFree (a # r) = (if \<not> Valid a then 0 else Suc (firstFree r))"

text \<open>
  Slot \<open>j\<close> is the oldest of a set: it is valid, its age is positive and the greatest
  among the valid slots, and every valid slot before it is strictly younger.
  \<open>scanState\<close> is what the loop of \<open>getOldest\<close> knows after the slots \<open>pre\<close>.
\<close>

definition isOldest :: "Access list \<Rightarrow> nat \<Rightarrow> bool" where
  "isOldest s j =
     (j < length s \<and> Valid (s ! j) \<and> 0 < getAge (s ! j) \<and>
      (\<forall>k < length s. Valid (s ! k) \<longrightarrow> getAge (s ! k) \<le> getAge (s ! j)) \<and>
      (\<forall>k < j. Valid (s ! k) \<longrightarrow> getAge (s ! k) < getAge (s ! j)))"

definition scanState :: "Access list \<Rightarrow> nat \<Rightarrow> nat option \<Rightarrow> bool" where
  "scanState pre age oldest =
     (case oldest of
        None \<Rightarrow> age = 0 \<and> (\<forall>k < length pre. Valid (pre ! k) \<longrightarrow> getAge (pre ! k) = 0)
      | Some j \<Rightarrow> isOldest pre j \<and> getAge (pre ! j) = age)"

text \<open>
  A slot after one round of aging, and a cache in which the first valid slot of set \<open>t\<close>
  with tag \<open>tg\<close> has its dirty flag true and nothing else is changed.
\<close>

definition agedSlot :: "Access \<Rightarrow> Access" where
  "agedSlot a = (if Valid a then a\<lparr>getAge := getAge a + 1\<rparr> else a)"

definition markDirty :: "Cache \<Rightarrow> nat \<Rightarrow> nat \<Rightarrow> Cache" where
  "markDirty c t tg =
     c\<lparr>cache := (cache c)[t := (cache c ! t)[firstMatch (cache c ! t) tg :=
                                 (cache c ! t ! firstMatch (cache c ! t) tg)\<lparr>Dirty := True\<rparr>]]\<rparr>"

text \<open>No two valid slots of a set hold the same tag.\<close>

definition tagsUnique :: "Access list \<Rightarrow> bool" where
  "tagsUnique s =
     (\<forall>i < length s. \<forall>j < length s.
        Valid (s ! i) \<and> Valid (s ! j) \<and> getTag (s ! i) = getTag (s ! j) \<longrightarrow> i = j)"

text \<open>
  The states of a cache that can be reached from one whose slots are all invalid, by
  \<open>Read\<close>, by \<open>Write\<close> and by steps that leave \<open>cache_\<close> alone (the counters and the
  trace are updated between the calls).
\<close>

inductive reachable :: "Cache \<Rightarrow> bool" where
  reach_start: "(\<forall>s \<in> set (cache c). \<forall>a \<in> set s. \<not> Valid a) \<Longrightarrow> reachable c"
| reach_read: "reachable c \<Longrightarrow> Read c r = Inr (h, r', c') \<Longrightarrow> reachable c'"
| reach_write: "reachable c \<Longrightarrow> Write c w = Inr (h, w', c') \<Longrightarrow> reachable c'"
| reach_other: "reachable c \<Longrightarrow> cache c' = cache c \<Longrightarrow> reachable c'"

text \<open>
  A record of the trace that the second loop of \<open>operator()\<close> processes, and the counters
  in step with the outcomes recorded.
\<close>

definition isAccessOp :: "Access \<Rightarrow> bool" where
  "isAccessOp a = (getOp a = ''Read'' \<or> getOp a = ''Write'')"

definition countsOk :: "Cache \<Rightarrow> bool" where
  "countsOk c =
     (length (hitMiss c) = accesses c \<and> hits c = length (filter (\<lambda>h. h) (hitMiss c)))"

text \<open>A record as the first loop of \<open>operator()\<close> builds it: age 0 and not dirty.\<close>

definition fresh :: "Access \<Rightarrow> bool" where
  "fresh a = (getAge a = 0 \<and> \<not> Dirty a)"

text \<open>
  A cache on which the second loop of \<open>operator()\<close> can run: every set has a slot and
  every record of the trace has its index inside \<open>cache_\<close>.
\<close>

definition runnable :: "Cache \<Rightarrow> bool" where
  "runnable c =
     ((\<forall>x \<in> set (cache c). x \<noteq> []) \<and> (\<forall>a \<in> set (trace c). getIndex a < length (cache c)))"

text \<open>
  A small cache for the examples: associativity 2, lines of 4 bytes, 8 bytes in all (one
  set of two slots), after a read of address 0 and a write to address 4; the same cache
  with the two lines parsed and not yet processed; a read that misses in the full set,
  a write that hits the line loaded by the write, and a write that hits the line loaded
  by the read.
\<close>

definition exCache :: Cache where
  "exCache = projr (simulate 2 4 8 [''R:4:00000000'', ''W:4:00000004''])"

definition exMiss :: Access where
  "exMiss = the (projr (parseLine exCache ''R:4:00000008''))"

definition exHit :: Access where
  "exHit = the (projr (parseLine exCache ''W:4:00000004''))"

definition exHitR :: Access where
  "exHitR = the (projr (parseLine exCache ''W:4:00000000''))"

definition exParsed :: Cache where
  "exParsed = projr (parseLines (projr (Cache_ctor 2 4 8)) [''R:4:00000000'', ''W:4:00000004''])"

section \<open>Arithmetic of the constructor\<close>

lemma log2_pow [simp]: "log2 (2 ^ k) = k"
proof (induction k)
  case 0
  show ?case by (simp add: log2.simps)
next
  case (Suc k)
  have "\<not> (2::nat) ^ Suc k < 2" by simp
  then have "log2 (2 ^ Suc k) = Suc (log2 (2 ^ Suc k div 2))"
    by (subst log2.simps) simp
  with Suc show ?case by simp
qed

lemma log2_small [simp]: "log2 0 = 0" "log2 (Suc 0) = 0" "log2 1 = 0"
  by (simp_all add: log2.simps)

lemma log2_numeral [simp]:
  "log2 (numeral k) = (if numeral k < (2::nat) then 0 else Suc (log2 (numeral k div 2)))"
  by (rule log2.simps)

lemma is_pow2_D: "is_pow2 n \<Longrightarrow> n = 2 ^ log2 n"
  by (simp add: is_pow2_def)

lemma sub_mod_gen:
  fixes M :: nat
  assumes "b \<le> a" "a < M"
  shows "(a + M - b mod M) mod M = a - b"
proof -
  have 1: "b mod M = b" using assms by simp
  have 2: "a + M - b = (a - b) + M" using assms by simp
  have 3: "a - b < M" using assms by simp
  have "(a + M - b mod M) mod M = ((a - b) + M) mod M" by (simp only: 1 2)
  also have "\<dots> = (a - b) mod M" by (rule mod_add_self2)
  also have "\<dots> = a - b" using 3 by (rule mod_less)
  finally show ?thesis .
qed

lemma sub_size_t_le: "b \<le> a \<Longrightarrow> a < 2 ^ 64 \<Longrightarrow> sub_size_t a b = a - b"
  unfolding sub_size_t_def by (rule sub_mod_gen)

lemma sub_mod_wrap:
  fixes M :: nat
  assumes "a < b" "b < M"
  shows "(a + M - b mod M) mod M = a + M - b"
proof -
  have 1: "b mod M = b" using assms by simp
  have 2: "a + M - b < M" using assms by simp
  show ?thesis unfolding 1 using 2 by (rule mod_less)
qed

lemma tag_width_gen:
  fixes M :: nat
  assumes "k \<le> 32 + a" "k < M" "32 + a < M"
  shows "((32 + M - k mod M) mod M + a) mod M = 32 + a - k"
proof (cases "k \<le> 32")
  case True
  have "32 < M" using assms by simp
  with True have "(32 + M - k mod M) mod M = 32 - k" by (rule sub_mod_gen)
  moreover have "32 - k + a < M" using assms by simp
  ultimately show ?thesis using True by simp
next
  case False
  then have "32 < k" by simp
  then have 1: "(32 + M - k mod M) mod M = 32 + M - k" using assms(2) by (rule sub_mod_wrap)
  have "32 + M - k + a = (32 + a - k) + M" using assms by simp
  moreover have "32 + a - k < M" using assms by simp
  ultimately show ?thesis unfolding 1 by simp
qed

lemma tag_width_size_t:
  assumes "k \<le> 32 + a" "k < 64" "a < 64"
  shows "add_size_t (sub_size_t 32 k) a = 32 + a - k"
proof -
  have "k < 2 ^ 64" using assms(2) by simp
  moreover have "32 + a < 2 ^ 64" using assms(3) by simp
  ultimately show ?thesis
    unfolding add_size_t_def sub_size_t_def using assms(1) by (rule tag_width_gen [rotated])
qed

text \<open>If the start of the index field did not wrap around, the two widths fit in 32 bits.\<close>

lemma index_start_gen:
  fixes M :: nat
  assumes "off < 64" "idx < 64" "200 < M"
    and "((32 + M - off mod M) mod M + M - idx mod M) mod M \<le> 32"
  shows "off + idx \<le> 32"
proof (rule ccontr)
  assume n: "\<not> off + idx \<le> 32"
  have o: "off mod M = off" and i: "idx mod M = idx" using assms by simp_all
  show False
  proof (cases "off \<le> 32")
    case True
    have "(32 + M - off) mod M = 32 - off" using sub_mod_gen [of off 32 M] True assms o by simp
    moreover have "32 - off < idx" using n True by simp
    then have "(32 - off + M - idx mod M) mod M = 32 - off + M - idx"
      using assms by (intro sub_mod_wrap) simp_all
    ultimately have "32 - off + M - idx \<le> 32" using assms(4) o i by simp
    then show False using assms(1-3) True by simp
  next
    case False
    then have "32 < off" by simp
    then have "(32 + M - off mod M) mod M = 32 + M - off"
      using assms by (intro sub_mod_wrap) simp_all
    moreover have "(32 + M - off + M - idx) mod M = 32 + M - off - idx"
    proof -
      have "32 + M - off + M - idx = (32 + M - off - idx) + M" using assms by simp
      moreover have "32 + M - off - idx < M" using assms False by simp
      ultimately show ?thesis by simp
    qed
    ultimately have "32 + M - off - idx \<le> 32" using assms(4) o i by simp
    then show False using assms(1-3) by simp
  qed
qed

lemma index_start_fits:
  assumes "off < 64" "idx < 64" "sub_size_t (sub_size_t 32 off) idx \<le> 32"
  shows "off + idx \<le> 32"
proof -
  have M: "(200::nat) < 2 ^ 64" by simp
  show ?thesis
    using assms(1,2) M assms(3) unfolding sub_size_t_def by (rule index_start_gen)
qed

lemma pow2_le_D: "(2::nat) ^ a \<le> 2 ^ b \<Longrightarrow> a \<le> b"
  by simp

lemma pow2_less_D: "(2::nat) ^ a < 2 ^ b \<Longrightarrow> a < b"
  by simp

lemma valid_config_exps:
  assumes "valid_config s l c"
  obtains a b k where "s = 2 ^ a" "l = 2 ^ b" "c = 2 ^ k" "a + b \<le> k" "k \<le> 32 + a" "k < 64"
    "log2 s = a" "log2 l = b" "log2 c = k"
proof -
  from assms have s: "s = 2 ^ log2 s" and l: "l = 2 ^ log2 l" and c: "c = 2 ^ log2 c"
    and sl: "s * l \<le> c" and cs: "c \<le> 2 ^ 32 * s" and c64: "c < 2 ^ 64"
    by (simp_all add: valid_config_def is_pow2_def)
  have "(2::nat) ^ (log2 s + log2 l) \<le> 2 ^ log2 c"
    using sl s l c by (metis power_add)
  then have 1: "log2 s + log2 l \<le> log2 c" by (rule pow2_le_D)
  have "(2::nat) ^ log2 c \<le> 2 ^ (32 + log2 s)"
    using cs s c by (metis power_add)
  then have 2: "log2 c \<le> 32 + log2 s" by (rule pow2_le_D)
  have "(2::nat) ^ log2 c < 2 ^ 64"
    using c64 c by metis
  then have 3: "log2 c < 64" by (rule pow2_less_D)
  show thesis by (rule that [OF s l c 1 2 3 refl refl refl])
qed

lemma pow2_less_size_t: "k < 64 \<Longrightarrow> (2::nat) ^ k < 2 ^ 64"
  by (simp only: power_strict_increasing_iff rel_simps)

lemma ctor_valid:
  assumes "valid_config s l c"
  shows "Cache_ctor s l c =
           Inr \<lparr>numBlocks = c div l, numSets = c div (s * l), lineSize = l, setSize = s,
                cacheSize = c, offsetBits = log2 l, indexBits = log2 c,
                tagBits = 32 + log2 s - log2 c, hits = 0, accesses = 0,
                cache = replicate (c div (s * l)) (replicate s Access_default),
                trace = [], hitMiss = []\<rparr>"
proof -
  from assms obtain a b k where e: "s = 2 ^ a" "l = 2 ^ b" "c = 2 ^ k" "a + b \<le> k"
    "k \<le> 32 + a" "k < 64" "log2 s = a" "log2 l = b" "log2 c = k"
    by (rule valid_config_exps)
  have sl: "s * l = 2 ^ (a + b)" using e by (simp add: power_add)
  have "a + b < 64" using e by simp
  then have "(2::nat) ^ (a + b) < 2 ^ 64" by (rule pow2_less_size_t)
  then have m: "mul_size_t s l = s * l" by (simp add: mul_size_t_def sl)
  have nz: "s * l \<noteq> 0" "c \<noteq> 0" "l \<noteq> 0" "s \<noteq> 0" using e by simp_all
  have n: "c div (s * l) = 2 ^ (k - (a + b))" using e sl by (simp add: power_diff)
  have "c div (s * l) * s = 2 ^ (k - (a + b) + a)" using n e(1) by (metis power_add)
  also have "\<dots> = 2 ^ (k - b)" using e by simp
  also have "\<dots> = c div l" using e by (simp add: power_diff)
  finally have nb: "c div (s * l) * s = c div l" .
  have "k - b < 64" using e by simp
  then have "(2::nat) ^ (k - b) < 2 ^ 64" by (rule pow2_less_size_t)
  then have "c div l < 2 ^ 64" using e by (simp add: power_diff)
  then have m2: "mul_size_t (c div (s * l)) s = c div l" by (simp add: mul_size_t_def nb)
  have "a < 64" using e by simp
  with e have t: "add_size_t (sub_size_t 32 (log2 c)) (log2 s) = 32 + log2 s - log2 c"
    by (simp add: tag_width_size_t)
  show ?thesis
    using nz by (simp add: Cache_ctor_def calcNumSets_def m m2 t)
qed

text \<open>The configuration of the example: associativity 1, lines of 4 bytes, 16 bytes.\<close>

lemma ctor_example:
  "Cache_ctor (Suc 0) 4 16 = Inr \<lparr>numBlocks = 4, numSets = 4, lineSize = 4, setSize = 1,
                    cacheSize = 16, offsetBits = 2, indexBits = 4,
                    tagBits = 28,
                    hits = 0, accesses = 0,
                    cache = replicate 4 (replicate 1 Access_default),
                    trace = [], hitMiss = []\<rparr>"
  by (simp add: Cache_ctor_def calcNumSets_def mul_size_t_def add_size_t_def sub_size_t_def)

lemma valid_config_example: "valid_config (Suc 0) 4 16"
  by (simp add: valid_config_def is_pow2_def)

section \<open>Bit widths (C3)\<close>

text \<open>
  Claim C3, as the code has it. For every valid configuration the constructor succeeds,
  the offset width is \<open>log2\<close> of the line size and the tag width is 32 minus the offset
  width minus \<open>log2\<close> of the number of sets, so these three widths add up to 32. The
  width that \<open>getIndexBits\<close> returns is \<open>log2\<close> of the cache size, not of the number of
  sets; with it the three getters add up to 32 plus \<open>log2\<close> of the associativity plus
  \<open>log2\<close> of the line size.
\<close>

theorem bit_widths_of_valid_config:
  assumes "valid_config s l c"
  shows "\<exists>k. Cache_ctor s l c = Inr k \<and> numSets k = c div (s * l) \<and>
           numSets k = 2 ^ log2 (numSets k) \<and>
           getOffsetBits k = log2 l \<and>
           getIndexBits k = log2 c \<and>
           getTagBits k = 32 - getOffsetBits k - log2 (numSets k) \<and>
           getOffsetBits k + log2 (numSets k) + getTagBits k = 32 \<and>
           getOffsetBits k + getIndexBits k + getTagBits k = 32 + log2 s + log2 l"
proof -
  from assms obtain a b k where e: "s = 2 ^ a" "l = 2 ^ b" "c = 2 ^ k" "a + b \<le> k"
    "k \<le> 32 + a" "k < 64" "log2 s = a" "log2 l = b" "log2 c = k"
    by (rule valid_config_exps)
  have sl: "s * l = 2 ^ (a + b)" using e by (simp add: power_add)
  have n: "c div (s * l) = 2 ^ (k - (a + b))" using e sl by (simp add: power_diff)
  show ?thesis
    unfolding ctor_valid [OF assms] getOffsetBits_def getIndexBits_def getTagBits_def
    using e(4-9) n by simp
qed

theorem bit_widths_of_valid_config_witness:
  "valid_config 1 4 16 \<and>
   (\<exists>k. Cache_ctor 1 4 16 = Inr k \<and> numSets k = 4 \<and> getOffsetBits k = 2 \<and>
        getIndexBits k = 4 \<and> getTagBits k = 28)"
  using bit_widths_of_valid_config [of 1 4 16] valid_config_example
  by (simp add: ctor_example getOffsetBits_def getIndexBits_def getTagBits_def)

text \<open>
  At associativity 1, line size 4 and cache size 16 the index width of the getter is 4
  while the cache has 4 sets, and the three getters add up to 34.
\<close>

theorem bit_widths_counterexample:
  "valid_config 1 4 16 \<and> \<not> isl (Cache_ctor 1 4 16) \<and>
   getIndexBits (projr (Cache_ctor 1 4 16)) \<noteq> log2 (numSets (projr (Cache_ctor 1 4 16))) \<and>
   getOffsetBits (projr (Cache_ctor 1 4 16)) + getIndexBits (projr (Cache_ctor 1 4 16)) +
     getTagBits (projr (Cache_ctor 1 4 16)) \<noteq> 32"
  using valid_config_example
  by (simp add: ctor_example getOffsetBits_def getIndexBits_def getTagBits_def)

section \<open>The example of the specification (C6)\<close>

text \<open>
  Claim C6, as the code has it. For associativity 1, line size 4 and cache size 16 the
  cache has 4 sets, offset width 2, index width 4 (as \<open>getIndexBits\<close> returns it) and tag
  width 28. Address \<open>00000010\<close> has index 0 and tag 1: it goes to the set of address
  \<open>00000000\<close> and replaces its line, so the three reads are a miss, a miss and a miss.
\<close>

theorem example_trace_outcomes:
  "map_sum id (\<lambda>c. (numSets c, getOffsetBits c, getIndexBits c, getTagBits c, hitMiss c,
                 map (\<lambda>a. (getIndex a, getTag a)) (trace c)))
         (simulate 1 4 16 example_trace) =
       Inr (4, 2, 4, 28, [False, False, False], [(0, 0), (0, 1), (0, 0)])"
  apply (simp add: simulate_def ctor_example example_trace_def operator_call_def)
  apply (simp add: parseLine_def tokens_def decodeAddress_def setAddress_def calcIndex_def
      blockNum_def calcOffset_def calcTag_def substr_def sub_size_t_def hexBits_def
      binStringToInt_def Access_op_def Let_def)
  apply (simp add: processOne_def Read_def addAge_def Access_default_def isFull_def
      getOldest_def Insert_def setValid_def Access_addAge_def getOffsetBits_def
      getIndexBits_def getTagBits_def Let_def)
  done

text \<open>The third read of the example is not a hit, and the index width is not 2.\<close>

theorem example_trace_counterexample:
  "\<not> isl (simulate 1 4 16 example_trace) \<and>
   hitMiss (projr (simulate 1 4 16 example_trace)) \<noteq> [False, False, True] \<and>
   getIndexBits (projr (simulate 1 4 16 example_trace)) \<noteq> 2"
  apply (simp add: simulate_def ctor_example example_trace_def operator_call_def)
  apply (simp add: parseLine_def tokens_def decodeAddress_def setAddress_def calcIndex_def
      blockNum_def calcOffset_def calcTag_def substr_def sub_size_t_def hexBits_def
      binStringToInt_def Access_op_def Let_def)
  apply (simp add: processOne_def Read_def addAge_def Access_default_def isFull_def
      getOldest_def Insert_def setValid_def Access_addAge_def getIndexBits_def Let_def)
  done

section \<open>Bit strings and fields\<close>

lemma binStringToInt_loop_acc:
  "binStringToInt_loop r i num = num + 2 ^ i * binStringToInt_loop r 0 0"
proof (induction r arbitrary: i num)
  case Nil
  show ?case by simp
next
  case (Cons ch r)
  have a: "binStringToInt_loop r (Suc i) n = n + 2 ^ Suc i * binStringToInt_loop r 0 0" for n
    by (rule Cons.IH)
  have b: "binStringToInt_loop r (Suc 0) n = n + 2 * binStringToInt_loop r 0 0" for n
    using Cons.IH [of "Suc 0" n] by simp
  show ?case by (simp add: a b algebra_simps)
qed

lemma binStringToInt_Nil [simp]: "binStringToInt [] = 0"
  by (simp add: binStringToInt_def)

lemma binStringToInt_snoc:
  "binStringToInt (xs @ [ch]) = 2 * binStringToInt xs + (if ch = CHR ''1'' then 1 else 0)"
  using binStringToInt_loop_acc [of "rev xs" "Suc 0"]
  by (simp add: binStringToInt_def)

lemma binStringToInt_append:
  "binStringToInt (xs @ ys) = binStringToInt xs * 2 ^ length ys + binStringToInt ys"
proof (induction ys rule: rev_induct)
  case Nil
  show ?case by simp
next
  case (snoc y ys)
  have "binStringToInt (xs @ ys @ [y]) = binStringToInt ((xs @ ys) @ [y])" by simp
  also have "\<dots> = 2 * binStringToInt (xs @ ys) + (if y = CHR ''1'' then 1 else 0)"
    by (rule binStringToInt_snoc)
  finally show ?case by (simp add: snoc.IH binStringToInt_snoc algebra_simps)
qed

lemma binStringToInt_bound: "binStringToInt xs < 2 ^ length xs"
proof (induction xs rule: rev_induct)
  case Nil
  show ?case by simp
next
  case (snoc x xs)
  then show ?case by (simp add: binStringToInt_snoc)
qed

lemma binStringToInt_three:
  "binStringToInt (A @ B @ C) =
     (binStringToInt A * 2 ^ length B + binStringToInt B) * 2 ^ length C + binStringToInt C"
  by (simp add: binStringToInt_append power_add algebra_simps)

text \<open>The field of \<open>n\<close> characters at position \<open>p\<close> of a bit string, as a number.\<close>

lemma binStringToInt_field:
  assumes "p + n \<le> length bs"
  shows "binStringToInt (take n (drop p bs)) =
           (binStringToInt bs div 2 ^ (length bs - (p + n))) mod 2 ^ n"
proof -
  define A where "A = take p bs"
  define B where "B = take n (drop p bs)"
  define C where "C = drop (p + n) bs"
  have split: "bs = A @ B @ C"
    unfolding A_def B_def C_def by (metis append_take_drop_id drop_drop add.commute)
  have lB: "length B = n" and lC: "length C = length bs - (p + n)"
    using assms by (simp_all add: B_def C_def)
  have v: "binStringToInt bs =
      (binStringToInt A * 2 ^ n + binStringToInt B) * 2 ^ length C + binStringToInt C"
    unfolding split lB [symmetric] by (rule binStringToInt_three)
  have cb: "binStringToInt C < 2 ^ length C" by (rule binStringToInt_bound)
  have bb: "binStringToInt B < 2 ^ n" using binStringToInt_bound [of B] lB by simp
  have "binStringToInt bs div 2 ^ length C = binStringToInt A * 2 ^ n + binStringToInt B"
    by (subst v) (simp add: cb)
  then have "(binStringToInt bs div 2 ^ length C) mod 2 ^ n = binStringToInt B"
    using bb by simp
  then show ?thesis by (simp only: lC B_def)
qed

lemma recombine_fields:
  "recombine n off (v div 2 ^ (off + n)) ((v div 2 ^ off) mod 2 ^ n) (v mod 2 ^ off) = v"
proof -
  define q where "q = v div 2 ^ off"
  have 1: "v div 2 ^ (off + n) = q div 2 ^ n"
    by (simp add: q_def power_add div_mult2_eq)
  have "recombine n off (q div 2 ^ n) (q mod 2 ^ n) (v mod 2 ^ off)
      = (q div 2 ^ n * 2 ^ n + q mod 2 ^ n) * 2 ^ off + v mod 2 ^ off"
    by (simp only: recombine_def power_add add_mult_distrib mult.assoc)
  also have "\<dots> = q * 2 ^ off + v mod 2 ^ off" by (simp only: div_mult_mod_eq)
  also have "\<dots> = v" unfolding q_def by (rule div_mult_mod_eq)
  finally show ?thesis unfolding 1 q_def .
qed

lemma knownDigit_cases:
  assumes "knownDigit ch"
  shows "ch = CHR ''0'' \<or> ch = CHR ''1'' \<or> ch = CHR ''2'' \<or> ch = CHR ''3'' \<or>
         ch = CHR ''4'' \<or> ch = CHR ''5'' \<or> ch = CHR ''6'' \<or> ch = CHR ''7'' \<or>
         ch = CHR ''8'' \<or> ch = CHR ''9'' \<or> ch = CHR ''a'' \<or> ch = CHR ''b'' \<or>
         ch = CHR ''c'' \<or> ch = CHR ''d'' \<or> ch = CHR ''e'' \<or> ch = CHR ''f''"
  using assms by (simp add: knownDigit_def hexChars_def)

lemma hexBits_known:
  assumes "knownDigit ch"
  shows "length (hexBits ch) = 4" and "binStringToInt (hexBits ch) = digitVal ch"
  using knownDigit_cases [OF assms]
  by (auto simp: hexBits_def binStringToInt_def digitVal_def hexChars_def)

lemma hexBits_unknown: "\<not> knownDigit ch \<Longrightarrow> hexBits ch = []"
  by (simp add: knownDigit_def hexChars_def hexBits_def)

lemma parseHex_append: "parseHex (xs @ ys) = parseHex xs @ parseHex ys"
  by (induction xs) simp_all

lemma length_parseHex: "length (parseHex s) + 4 * unknownCount s = 4 * length s"
proof (induction s)
  case Nil
  show ?case by (simp add: unknownCount_def)
next
  case (Cons ch s)
  then show ?case
    by (cases "knownDigit ch") (simp_all add: unknownCount_def hexBits_known hexBits_unknown)
qed

lemma unknownCount_known: "list_all knownDigit s \<Longrightarrow> unknownCount s = 0"
  by (induction s) (simp_all add: unknownCount_def)

lemma addrValue_snoc: "addrValue (s @ [ch]) = 16 * addrValue s + digitVal ch"
  by (simp add: addrValue_def)

lemma parseHex_value: "list_all knownDigit s \<Longrightarrow> binStringToInt (parseHex s) = addrValue s"
proof (induction s rule: rev_induct)
  case Nil
  show ?case by (simp add: addrValue_def)
next
  case (snoc ch s)
  then have k: "knownDigit ch" and ih: "binStringToInt (parseHex s) = addrValue s" by simp_all
  show ?case
    by (simp add: parseHex_append binStringToInt_append hexBits_known [OF k] ih addrValue_snoc)
qed

lemma calcOffset_value:
  assumes "length (parseHex s) = 32" "offsetBits k \<le> 32"
  shows "calcOffset k s = Inr (binStringToInt (parseHex s) mod 2 ^ offsetBits k)"
proof -
  have st: "sub_size_t 32 (offsetBits k) = 32 - offsetBits k"
    using assms(2) by (rule sub_size_t_le) simp
  have "binStringToInt (take (offsetBits k) (drop (32 - offsetBits k) (parseHex s))) =
          (binStringToInt (parseHex s) div 2 ^ (length (parseHex s) - (32 - offsetBits k + offsetBits k)))
            mod 2 ^ offsetBits k"
    using assms by (intro binStringToInt_field) simp
  then show ?thesis using assms by (simp add: calcOffset_def st substr_def Let_def)
qed

lemma calcTag_value:
  assumes "length (parseHex s) = 32" "tagBits k \<le> 32"
  shows "calcTag k s = Inr (binStringToInt (parseHex s) div 2 ^ (32 - tagBits k))"
proof -
  let ?v = "binStringToInt (parseHex s)"
  have "binStringToInt (take (tagBits k) (drop 0 (parseHex s))) =
          (?v div 2 ^ (length (parseHex s) - (0 + tagBits k))) mod 2 ^ tagBits k"
    using assms by (intro binStringToInt_field) simp
  then have f: "binStringToInt (take (tagBits k) (parseHex s)) =
      (?v div 2 ^ (32 - tagBits k)) mod 2 ^ tagBits k"
    using assms by simp
  have "?v < 2 ^ 32" using binStringToInt_bound [of "parseHex s"] assms by simp
  also have "(2::nat) ^ 32 = 2 ^ (32 - tagBits k) * 2 ^ tagBits k"
    using assms(2) by (simp only: power_add [symmetric]) simp
  finally have "?v div 2 ^ (32 - tagBits k) < 2 ^ tagBits k"
    by (simp add: less_mult_imp_div_less mult.commute)
  then show ?thesis by (simp add: calcTag_def substr_def f)
qed

lemma blockNum_value:
  assumes "length (parseHex s) = 32" "offsetBits k + indexBits k \<le> 32"
  shows "blockNum k s =
           Inr ((binStringToInt (parseHex s) div 2 ^ offsetBits k) mod 2 ^ indexBits k)"
proof -
  have "sub_size_t 32 (offsetBits k) = 32 - offsetBits k"
    using assms(2) by (intro sub_size_t_le) simp_all
  moreover have "sub_size_t (32 - offsetBits k) (indexBits k) = 32 - offsetBits k - indexBits k"
    using assms(2) by (intro sub_size_t_le) simp_all
  ultimately have st: "sub_size_t (sub_size_t 32 (offsetBits k)) (indexBits k) =
      32 - offsetBits k - indexBits k" by simp
  have "binStringToInt (take (indexBits k) (drop (32 - offsetBits k - indexBits k) (parseHex s))) =
          (binStringToInt (parseHex s) div
             2 ^ (length (parseHex s) - (32 - offsetBits k - indexBits k + indexBits k)))
            mod 2 ^ indexBits k"
    using assms by (intro binStringToInt_field) simp
  moreover have "length (parseHex s) - (32 - offsetBits k - indexBits k + indexBits k) = offsetBits k"
    using assms by simp
  ultimately show ?thesis using assms by (simp add: blockNum_def st substr_def Let_def)
qed

lemma blockNum_defined:
  assumes "blockNum k s = Inr b" "length (parseHex s) \<le> 32"
    "offsetBits k < 64" "indexBits k < 64"
  shows "offsetBits k + indexBits k \<le> 32"
proof -
  have "sub_size_t (sub_size_t 32 (offsetBits k)) (indexBits k) \<le> length (parseHex s)"
    using assms(1) by (simp add: blockNum_def substr_def Let_def split: if_splits)
  then have "sub_size_t (sub_size_t 32 (offsetBits k)) (indexBits k) \<le> 32"
    using assms(2) by simp
  with assms(3,4) show ?thesis by (rule index_start_fits)
qed

lemma ctor_example64:
  "Cache_ctor (Suc 0) 16 64 = Inr \<lparr>numBlocks = 4, numSets = 4, lineSize = 16, setSize = 1,
                    cacheSize = 64, offsetBits = 4, indexBits = 6,
                    tagBits = 26,
                    hits = 0, accesses = 0,
                    cache = replicate 4 (replicate 1 Access_default),
                    trace = [], hitMiss = []\<rparr>"
  by (simp add: Cache_ctor_def calcNumSets_def mul_size_t_def add_size_t_def sub_size_t_def)

section \<open>Recombining the decoded fields (C4)\<close>

lemma decode_recombines_aux:
  assumes "valid_config s l c" and "Cache_ctor s l c = Inr k"
    and "length addr = 8" and "list_all knownDigit addr"
    and "blockNum k addr = Inr b" and "b < numSets k"
  shows "\<exists>tg off. calcTag k addr = Inr tg \<and> calcIndex k addr = Inr b \<and>
           calcOffset k addr = Inr off \<and>
           decodeAddress k a addr =
             Inr (a\<lparr>getAddress := addr, getIndex := b, getOffset := off, getTag := tg\<rparr>) \<and>
           numSets k = 2 ^ log2 (numSets k) \<and>
           tg < 2 ^ (32 - getOffsetBits k - log2 (numSets k)) \<and>
           off < 2 ^ getOffsetBits k \<and>
           recombine (log2 (numSets k)) (getOffsetBits k) tg b off = addrValue addr"
proof -
  from assms(1) obtain a' b' kk where e: "s = 2 ^ a'" "l = 2 ^ b'" "c = 2 ^ kk" "a' + b' \<le> kk"
    "kk \<le> 32 + a'" "kk < 64" "log2 s = a'" "log2 l = b'" "log2 c = kk"
    by (rule valid_config_exps)
  define n where "n = kk - (a' + b')"
  define v where "v = binStringToInt (parseHex addr)"
  have sl: "s * l = 2 ^ (a' + b')" using e by (simp add: power_add)
  have ns: "c div (s * l) = 2 ^ n" using e sl by (simp add: power_diff n_def)
  have k: "offsetBits k = b'" "indexBits k = kk" "tagBits k = 32 + a' - kk" "numSets k = 2 ^ n"
    using assms(2) e(7-9) ns unfolding ctor_valid [OF assms(1)] by auto
  have len: "length (parseHex addr) = 32"
    using length_parseHex [of addr] unknownCount_known [OF assms(4)] assms(3) by simp
  have val: "v = addrValue addr"
    unfolding v_def using assms(4) by (rule parseHex_value)
  have fit: "offsetBits k + indexBits k \<le> 32"
    using assms(5) by (rule blockNum_defined) (use e(4,6) in \<open>simp_all add: len k\<close>)
  have bv: "b = (v div 2 ^ b') mod 2 ^ kk"
    using blockNum_value [OF len fit] assms(5) by (simp add: k v_def)
  have "n \<le> kk" by (simp add: n_def)
  then have "(2::nat) ^ n dvd 2 ^ kk" by (rule le_imp_power_dvd)
  then have "(v div 2 ^ b') mod 2 ^ kk mod 2 ^ n = (v div 2 ^ b') mod 2 ^ n"
    by (rule mod_mod_cancel)
  moreover have "b mod 2 ^ n = b" using assms(6) by (simp add: k)
  ultimately have bn: "b = (v div 2 ^ b') mod 2 ^ n" using bv by simp
  have ci: "calcIndex k addr = Inr b"
    using assms(5,6) by (simp add: calcIndex_def k)
  have tw: "32 - tagBits k = b' + n" "tagBits k \<le> 32" "tagBits k = 32 - b' - n"
    using e(4,5) by (simp_all add: k n_def)
  have ct: "calcTag k addr = Inr (v div 2 ^ (b' + n))"
    using calcTag_value [OF len tw(2)] by (simp add: tw(1) v_def)
  have co: "calcOffset k addr = Inr (v mod 2 ^ b')"
    using calcOffset_value [OF len, of k] fit by (simp add: k v_def)
  have "v < 2 ^ 32" using binStringToInt_bound [of "parseHex addr"] by (simp add: len v_def)
  also have "(2::nat) ^ 32 = 2 ^ (b' + n) * 2 ^ (32 - b' - n)"
    using tw k by (simp only: power_add [symmetric]) simp
  finally have tb: "v div 2 ^ (b' + n) < 2 ^ (32 - b' - n)"
    by (simp add: less_mult_imp_div_less mult.commute)
  have sa: "setAddress a addr = Inr (a\<lparr>getAddress := addr\<rparr>)"
    using assms(3) by (simp add: setAddress_def sub_size_t_def)
  have rc: "recombine n b' (v div 2 ^ (b' + n)) b (v mod 2 ^ b') = v"
    using recombine_fields [of n b' v] by (simp only: bn [symmetric])
  show ?thesis
    using tb by (simp add: ct ci co decodeAddress_def sa k getOffsetBits_def rc val [symmetric])
qed

lemma blockNum_defined_iff:
  assumes "valid_config s l c" and "Cache_ctor s l c = Inr k"
    and "length addr = 8" and "list_all knownDigit addr"
  shows "(\<exists>b. blockNum k addr = Inr b) = (l * c \<le> 2 ^ 32)"
proof -
  from assms(1) obtain a' b' kk where e: "s = 2 ^ a'" "l = 2 ^ b'" "c = 2 ^ kk" "a' + b' \<le> kk"
    "kk \<le> 32 + a'" "kk < 64" "log2 s = a'" "log2 l = b'" "log2 c = kk"
    by (rule valid_config_exps)
  have k: "offsetBits k = b'" "indexBits k = kk"
    using assms(2) e(7-9) unfolding ctor_valid [OF assms(1)] by auto
  have len: "length (parseHex addr) = 32"
    using length_parseHex [of addr] unknownCount_known [OF assms(4)] assms(3) by simp
  have lc: "l * c = 2 ^ (b' + kk)" using e by (simp add: power_add)
  have "(l * c \<le> 2 ^ 32) = (b' + kk \<le> 32)"
    unfolding lc by (rule power_increasing_iff) simp
  moreover have "(\<exists>b. blockNum k addr = Inr b) = (b' + kk \<le> 32)"
  proof
    assume "\<exists>b. blockNum k addr = Inr b"
    then obtain b where "blockNum k addr = Inr b" ..
    then have "offsetBits k + indexBits k \<le> 32"
      by (rule blockNum_defined) (use e(4,6) in \<open>simp_all add: len k\<close>)
    then show "b' + kk \<le> 32" by (simp add: k)
  next
    assume "b' + kk \<le> 32"
    then have "offsetBits k + indexBits k \<le> 32" by (simp add: k)
    from blockNum_value [OF len this] show "\<exists>b. blockNum k addr = Inr b" by blast
  qed
  ultimately show ?thesis by simp
qed

lemma valid_config_large: "valid_config 1 64 (2 ^ 27)"
proof -
  have "is_pow2 (2 ^ 27)" unfolding is_pow2_def by (simp only: log2_pow)
  moreover have "is_pow2 64" "is_pow2 1" by (simp_all add: is_pow2_def)
  ultimately show ?thesis by (simp add: valid_config_def)
qed

lemma ctor_valid_fields:
  assumes "valid_config s l c"
  shows "\<exists>k. Cache_ctor s l c = Inr k \<and> offsetBits k = log2 l \<and> indexBits k = log2 c \<and>
           numSets k = c div (s * l)"
  unfolding ctor_valid [OF assms] by simp




section \<open>Characters that are not hexadecimal digits (C9)\<close>

lemma unknownCount_append: "unknownCount (xs @ ys) = unknownCount xs + unknownCount ys"
  by (simp add: unknownCount_def)

lemma unknownCount_zeros: "unknownCount (replicate n CHR ''0'') = 0"
  by (induction n) (simp_all add: unknownCount_def knownDigit_def hexChars_def)

lemma unknownCount_le: "unknownCount s \<le> length s"
  by (simp add: unknownCount_def)

lemma setAddress_short:
  assumes "length t \<le> 8"
  shows "setAddress a t = Inr (a\<lparr>getAddress := replicate (8 - length t) CHR ''0'' @ t\<rparr>)"
proof -
  have "sub_size_t 8 (length t) = 8 - length t" using assms by (rule sub_size_t_le) simp
  then show ?thesis using assms by (simp add: setAddress_def)
qed

lemma calcTag_total: "\<exists>tg. calcTag k s = Inr tg"
  by (simp add: calcTag_def substr_def)

lemma calcOffset_fails:
  assumes "offsetBits k \<le> 32"
  shows "calcOffset k s =
           (if length (parseHex s) < 32 - offsetBits k then Inl OutOfRange
            else Inr (binStringToInt (take (offsetBits k) (drop (32 - offsetBits k) (parseHex s)))))"
proof -
  have "sub_size_t 32 (offsetBits k) = 32 - offsetBits k"
    using assms by (rule sub_size_t_le) simp
  then show ?thesis by (simp add: calcOffset_def substr_def Let_def)
qed

lemma calcIndex_fails:
  assumes "offsetBits k + indexBits k \<le> 32" "numSets k \<noteq> 0"
  shows "calcIndex k s =
           (if length (parseHex s) < 32 - offsetBits k - indexBits k then Inl OutOfRange
            else Inr (binStringToInt (take (indexBits k)
                        (drop (32 - offsetBits k - indexBits k) (parseHex s))) mod numSets k))"
proof -
  have "sub_size_t 32 (offsetBits k) = 32 - offsetBits k"
    using assms(1) by (intro sub_size_t_le) simp_all
  moreover have "sub_size_t (32 - offsetBits k) (indexBits k) = 32 - offsetBits k - indexBits k"
    using assms(1) by (intro sub_size_t_le) simp_all
  ultimately show ?thesis using assms(2) by (simp add: calcIndex_def blockNum_def substr_def Let_def)
qed




section \<open>The scans of one set\<close>

lemma addAge_loop_map:
  "addAge_loop s = map (\<lambda>a. if Valid a then Access_addAge a else a) s"
  by (induction s) simp_all

lemma length_addAge_loop [simp]: "length (addAge_loop s) = length s"
  by (simp add: addAge_loop_map)

lemma nth_addAge_loop:
  "i < length s \<Longrightarrow> addAge_loop s ! i = (if Valid (s ! i) then Access_addAge (s ! i) else s ! i)"
  by (simp add: addAge_loop_map)

lemma Valid_addAge_loop [simp]: "i < length s \<Longrightarrow> Valid (addAge_loop s ! i) = Valid (s ! i)"
  by (simp add: nth_addAge_loop Access_addAge_def)

lemma getTag_addAge_loop [simp]: "i < length s \<Longrightarrow> getTag (addAge_loop s ! i) = getTag (s ! i)"
  by (simp add: nth_addAge_loop Access_addAge_def)

lemma getAge_addAge_loop:
  "i < length s \<Longrightarrow>
     getAge (addAge_loop s ! i) = (if Valid (s ! i) then getAge (s ! i) + 1 else getAge (s ! i))"
  by (simp add: nth_addAge_loop Access_addAge_def)

lemma isFull_loop_set: "isFull_loop s = (\<forall>a \<in> set s. Valid a)"
  by (induction s) simp_all

lemma isFull_loop_iff: "isFull_loop s = (\<forall>i < length s. Valid (s ! i))"
  by (simp add: isFull_loop_set all_set_conv_all_nth)

lemma isFull_addAge_loop [simp]: "isFull_loop (addAge_loop s) = isFull_loop s"
  by (simp add: isFull_loop_iff)

lemma Read_scan_set: "Read_scan s tg = (\<exists>a \<in> set s. Valid a \<and> getTag a = tg)"
  by (induction s) auto

lemma Read_scan_iff: "Read_scan s tg = (\<exists>i < length s. Valid (s ! i) \<and> getTag (s ! i) = tg)"
  unfolding Read_scan_set by (metis in_set_conv_nth)

lemma firstMatch_props:
  "Read_scan s tg \<Longrightarrow>
     firstMatch s tg < length s \<and> Valid (s ! firstMatch s tg) \<and>
     getTag (s ! firstMatch s tg) = tg"
  by (induction s) (auto split: if_splits)

lemma firstMatch_first:
  "i < firstMatch s tg \<Longrightarrow> i < length s \<Longrightarrow> \<not> (Valid (s ! i) \<and> getTag (s ! i) = tg)"
proof (induction s arbitrary: i)
  case Nil
  then show ?case by simp
next
  case (Cons a s)
  then show ?case by (cases i) (auto split: if_splits)
qed

lemma Write_scan_eq:
  "Write_scan s tg =
     (if Read_scan s tg then Some (s[firstMatch s tg := setDirty (s ! firstMatch s tg)])
      else None)"
  by (induction s) auto

lemma firstFree_props:
  "\<not> isFull_loop s \<Longrightarrow> firstFree s < length s \<and> \<not> Valid (s ! firstFree s)"
  by (induction s) (auto split: if_splits)

lemma Insert_loop_eq:
  "Insert_loop s a = (\<not> isFull_loop s, if isFull_loop s then s else s[firstFree s := a])"
  by (induction s) auto

lemma scanState_step:
  assumes "scanState pre age oldest"
  shows "scanState (pre @ [a]) (if Valid a \<and> age < getAge a then getAge a else age)
           (if Valid a \<and> age < getAge a then Some (length pre) else oldest)"
proof (cases oldest)
  case None
  with assms show ?thesis
    by (auto simp: scanState_def isOldest_def nth_append less_Suc_eq)
next
  case (Some j)
  with assms show ?thesis
    by (auto simp: scanState_def isOldest_def nth_append less_Suc_eq)
qed

lemma getOldest_loop_scan:
  "scanState pre age oldest \<Longrightarrow>
     (case getOldest_loop xs (length pre) age oldest of
        None \<Rightarrow> \<forall>k < length (pre @ xs). Valid ((pre @ xs) ! k) \<longrightarrow> getAge ((pre @ xs) ! k) = 0
      | Some j \<Rightarrow> isOldest (pre @ xs) j)"
proof (induction xs arbitrary: pre age oldest)
  case Nil
  then show ?case by (simp add: scanState_def split: option.splits)
next
  case (Cons a xs)
  have st: "scanState (pre @ [a]) (if Valid a \<and> age < getAge a then getAge a else age)
           (if Valid a \<and> age < getAge a then Some (length pre) else oldest)"
    using Cons.prems by (rule scanState_step)
  have eq: "(pre @ [a]) @ xs = pre @ a # xs" by simp
  have l: "length (pre @ [a]) = Suc (length pre)" by simp
  from Cons.IH [OF st, unfolded eq l] show ?case
    by (cases "Valid a"; cases "age < getAge a") simp_all
qed

lemma getOldest_loop_spec:
  "(case getOldest_loop s 0 0 None of
      None \<Rightarrow> \<forall>k < length s. Valid (s ! k) \<longrightarrow> getAge (s ! k) = 0
    | Some j \<Rightarrow> isOldest s j)"
proof -
  have "scanState [] 0 None" by (simp add: scanState_def)
  from getOldest_loop_scan [OF this, of s, unfolded append_Nil] show ?thesis by simp
qed

lemma getOldest_loop_Some_iff:
  "(\<exists>j. getOldest_loop s 0 0 None = Some j) =
     (\<exists>i < length s. Valid (s ! i) \<and> 0 < getAge (s ! i))"
  using getOldest_loop_spec [of s]
  by (cases "getOldest_loop s 0 0 None") (auto simp: isOldest_def)

lemma getOldest_loop_full_aged:
  assumes "s \<noteq> []" "isFull_loop s"
  shows "\<exists>j. getOldest_loop (addAge_loop s) 0 0 None = Some j"
proof -
  have "0 < length s" using assms(1) by simp
  moreover have "Valid (s ! 0)" using assms by (simp add: isFull_loop_iff)
  ultimately have "\<exists>i < length (addAge_loop s). Valid (addAge_loop s ! i) \<and> 0 < getAge (addAge_loop s ! i)"
    by (intro exI [of _ 0]) (simp add: getAge_addAge_loop)
  then show ?thesis by (simp only: getOldest_loop_Some_iff)
qed

section \<open>Read and Write as equations\<close>

lemma addAge_loop_agedSlot: "addAge_loop s = map agedSlot s"
  by (simp add: addAge_loop_map agedSlot_def Access_addAge_def)

lemma cache_addAge: "t < length (cache c) \<Longrightarrow> cache (addAge c t) ! t = addAge_loop (cache c ! t)"
  by (simp add: addAge_def)

text \<open>\<open>Read\<close> and \<open>Write\<close> in one equation each, for an index inside the cache.\<close>

lemma Read_eq:
  assumes "getIndex r < length (cache c)"
  shows "Read c r =
    (let t = getIndex r; s = addAge_loop (cache c ! t) in
     if Read_scan s (getTag r)
     then Inr (True, r, c\<lparr>cache := (cache c)[t := s], hitMiss := hitMiss c @ [True]\<rparr>)
     else if isFull_loop s
     then (case getOldest_loop s 0 0 None of
             None \<Rightarrow> Inl UndefinedBehaviour
           | Some j \<Rightarrow> Inr (False, setValid r,
               c\<lparr>cache := (cache c)[t := s[j := setValid r]], hitMiss := hitMiss c @ [False]\<rparr>))
     else Inr (False, setValid r,
               c\<lparr>cache := (cache c)[t := s[firstFree s := setValid r]],
                 hitMiss := hitMiss c @ [False]\<rparr>))"
  using assms
  by (simp add: Read_def addAge_def isFull_def getOldest_def Insert_def Insert_loop_eq Let_def
      split: option.splits)

lemma Write_eq:
  assumes "getIndex w < length (cache c)"
  shows "Write c w =
    (let t = getIndex w; s = addAge_loop (cache c ! t) in
     if Read_scan s (getTag w)
     then Inr (True, w, c\<lparr>cache := (cache c)[t := s[firstMatch s (getTag w) :=
                                                    setDirty (s ! firstMatch s (getTag w))]],
                           hitMiss := hitMiss c @ [True]\<rparr>)
     else if isFull_loop s
     then (case getOldest_loop s 0 0 None of
             None \<Rightarrow> Inl UndefinedBehaviour
           | Some j \<Rightarrow> Inr (False, setValid w,
               c\<lparr>cache := (cache c)[t := s[j := setValid w]], hitMiss := hitMiss c @ [False]\<rparr>))
     else Inr (False, setValid w,
               c\<lparr>cache := (cache c)[t := s[firstFree s := setValid w]],
                 hitMiss := hitMiss c @ [False]\<rparr>))"
  using assms
  by (simp add: Write_def addAge_def isFull_def getOldest_def Insert_def Insert_loop_eq Let_def
      Write_scan_eq split: option.splits)

lemma Read_range: "Read c r = Inr x \<Longrightarrow> getIndex r < length (cache c)"
  by (simp add: Read_def Let_def split: if_splits)

lemma Write_range: "Write c w = Inr x \<Longrightarrow> getIndex w < length (cache c)"
  by (simp add: Write_def Let_def split: if_splits)

text \<open>What \<open>Read\<close> and \<open>Write\<close> leave alone.\<close>

lemma Read_fields:
  assumes "Read c r = Inr (h, r', c')"
  shows "hitMiss c' = hitMiss c @ [h]" "hits c' = hits c" "accesses c' = accesses c"
    "trace c' = trace c" "getOp r' = getOp r" "length (cache c') = length (cache c)"
  using assms Read_range [OF assms]
  by (auto simp: Read_eq Let_def setValid_def split: if_splits option.splits)

lemma Write_fields:
  assumes "Write c r = Inr (h, r', c')"
  shows "hitMiss c' = hitMiss c @ [h]" "hits c' = hits c" "accesses c' = accesses c"
    "trace c' = trace c" "getOp r' = getOp r" "length (cache c') = length (cache c)"
  using assms Write_range [OF assms]
  by (auto simp: Write_eq Let_def setValid_def split: if_splits option.splits)

lemma parseLine_fresh:
  assumes "parseLine c s = Inr (Some a)"
  shows "getAge a = 0 \<and> \<not> Dirty a \<and> Valid a"
  using assms
  by (auto simp: parseLine_def decodeAddress_def setAddress_def Access_op_def Let_def
      split: list.splits sum.splits if_splits)

text \<open>
  \<open>Read\<close> and \<open>Write\<close> on a set with at least one slot always return. The result is
  given here with the set as it was before the access: the aged set after a hit (for
  \<open>Write\<close> with the dirty flag of the first matching slot set), and after a miss the
  aged set with slot \<open>j\<close> replaced, where \<open>j\<close> is what \<open>getOldest\<close> returns for a full
  set and the first slot that is not valid otherwise.
\<close>

lemma miss_slot:
  assumes "s \<noteq> []" and "isFull_loop s \<longrightarrow> (\<exists>j. getOldest_loop s 0 0 None = Some j)"
  shows "\<exists>j < length s. (isFull_loop s \<longrightarrow> getOldest_loop s 0 0 None = Some j) \<and>
                         (\<not> isFull_loop s \<longrightarrow> j = firstFree s)"
proof (cases "isFull_loop s")
  case True
  with assms(2) obtain j where j: "getOldest_loop s 0 0 None = Some j" by blast
  then have "j < length s" using getOldest_loop_spec [of s] by (simp add: isOldest_def)
  with j True show ?thesis by blast
next
  case False
  then have "firstFree s < length s" using firstFree_props by blast
  with False show ?thesis by blast
qed

lemma Read_by_slot:
  assumes "getIndex r < length (cache c)" and "s = addAge_loop (cache c ! getIndex r)"
    and "isFull_loop s \<Longrightarrow> getOldest_loop s 0 0 None = Some j"
    and "\<not> isFull_loop s \<Longrightarrow> j = firstFree s"
  shows "Read c r =
    (if Read_scan s (getTag r)
     then Inr (True, r, c\<lparr>cache := (cache c)[getIndex r := s], hitMiss := hitMiss c @ [True]\<rparr>)
     else Inr (False, setValid r,
               c\<lparr>cache := (cache c)[getIndex r := s[j := setValid r]],
                 hitMiss := hitMiss c @ [False]\<rparr>))"
proof (cases "isFull_loop s")
  case True
  with assms(3) have "getOldest_loop s 0 0 None = Some j" by simp
  with True show ?thesis
    unfolding Read_eq [OF assms(1)] Let_def assms(2) [symmetric] by simp
next
  case False
  with assms(4) have "j = firstFree s" by simp
  with False show ?thesis
    unfolding Read_eq [OF assms(1)] Let_def assms(2) [symmetric] by simp
qed

lemma Write_by_slot:
  assumes "getIndex r < length (cache c)" and "s = addAge_loop (cache c ! getIndex r)"
    and "isFull_loop s \<Longrightarrow> getOldest_loop s 0 0 None = Some j"
    and "\<not> isFull_loop s \<Longrightarrow> j = firstFree s"
  shows "Write c r =
    (if Read_scan s (getTag r)
     then Inr (True, r, c\<lparr>cache := (cache c)[getIndex r := s[firstMatch s (getTag r) :=
                                                    setDirty (s ! firstMatch s (getTag r))]],
                           hitMiss := hitMiss c @ [True]\<rparr>)
     else Inr (False, setValid r,
               c\<lparr>cache := (cache c)[getIndex r := s[j := setValid r]],
                 hitMiss := hitMiss c @ [False]\<rparr>))"
proof (cases "isFull_loop s")
  case True
  with assms(3) have "getOldest_loop s 0 0 None = Some j" by simp
  with True show ?thesis
    unfolding Write_eq [OF assms(1)] Let_def assms(2) [symmetric] by simp
next
  case False
  with assms(4) have "j = firstFree s" by simp
  with False show ?thesis
    unfolding Write_eq [OF assms(1)] Let_def assms(2) [symmetric] by simp
qed

lemma scan_of_aged:
  "Read_scan (addAge_loop s) tg = (\<exists>i < length s. Valid (s ! i) \<and> getTag (s ! i) = tg)"
  by (auto simp: Read_scan_iff)



lemma firstMatch_aged: "firstMatch (map agedSlot s) tg = firstMatch s tg"
  by (induction s) (simp_all add: agedSlot_def)

lemma firstFree_aged: "firstFree (map agedSlot s) = firstFree s"
  by (induction s) (simp_all add: agedSlot_def)

lemma access_result:
  fixes c :: Cache and r :: Access
  defines "old \<equiv> cache c ! getIndex r"
  defines "found \<equiv> (\<exists>i < length old. Valid (old ! i) \<and> getTag (old ! i) = getTag r)"
  assumes t: "getIndex r < length (cache c)" and ne: "old \<noteq> []"
  obtains j where "j < length old"
    and "isFull_loop old \<Longrightarrow> getOldest_loop (map agedSlot old) 0 0 None = Some j"
    and "\<not> isFull_loop old \<Longrightarrow> j = firstFree old"
    and "Read c r =
             (if found
              then Inr (True, r, c\<lparr>cache := (cache c)[getIndex r := map agedSlot old],
                                    hitMiss := hitMiss c @ [True]\<rparr>)
              else Inr (False, r\<lparr>Valid := True\<rparr>,
                        c\<lparr>cache := (cache c)[getIndex r := (map agedSlot old)[j := r\<lparr>Valid := True\<rparr>]],
                          hitMiss := hitMiss c @ [False]\<rparr>))"
    and "Write c r =
             (if found
              then Inr (True, r,
                        c\<lparr>cache := (cache c)[getIndex r := (map agedSlot old)
                               [firstMatch old (getTag r) :=
                                  (agedSlot (old ! firstMatch old (getTag r)))\<lparr>Dirty := True\<rparr>]],
                          hitMiss := hitMiss c @ [True]\<rparr>)
              else Inr (False, r\<lparr>Valid := True\<rparr>,
                        c\<lparr>cache := (cache c)[getIndex r := (map agedSlot old)[j := r\<lparr>Valid := True\<rparr>]],
                          hitMiss := hitMiss c @ [False]\<rparr>))"
proof -
  let ?s = "addAge_loop old"
  have s: "?s = map agedSlot old" by (rule addAge_loop_agedSlot)
  have sne: "?s \<noteq> []" using ne by (simp add: s)
  have "isFull_loop ?s \<longrightarrow> (\<exists>j. getOldest_loop ?s 0 0 None = Some j)"
    using getOldest_loop_full_aged [OF ne] by simp
  with sne obtain j where j: "j < length ?s"
    and jf: "isFull_loop ?s \<Longrightarrow> getOldest_loop ?s 0 0 None = Some j"
    and jn: "\<not> isFull_loop ?s \<Longrightarrow> j = firstFree ?s"
    using miss_slot [of ?s] by blast
  have sc: "Read_scan ?s (getTag r) = found" by (simp add: scan_of_aged found_def)
  have fm: "found \<Longrightarrow> firstMatch old (getTag r) < length old"
    using firstMatch_props [of ?s "getTag r"] sc by (simp add: s firstMatch_aged)
  have rd: "Read c r =
             (if found
              then Inr (True, r, c\<lparr>cache := (cache c)[getIndex r := map agedSlot old],
                                    hitMiss := hitMiss c @ [True]\<rparr>)
              else Inr (False, r\<lparr>Valid := True\<rparr>,
                        c\<lparr>cache := (cache c)[getIndex r := (map agedSlot old)[j := r\<lparr>Valid := True\<rparr>]],
                          hitMiss := hitMiss c @ [False]\<rparr>))"
    using Read_by_slot [OF t _ jf jn] sc
    by (simp add: old_def [symmetric] s [symmetric] setValid_def)
  have wr: "Write c r =
             (if found
              then Inr (True, r,
                        c\<lparr>cache := (cache c)[getIndex r := (map agedSlot old)
                               [firstMatch old (getTag r) :=
                                  (agedSlot (old ! firstMatch old (getTag r)))\<lparr>Dirty := True\<rparr>]],
                          hitMiss := hitMiss c @ [True]\<rparr>)
              else Inr (False, r\<lparr>Valid := True\<rparr>,
                        c\<lparr>cache := (cache c)[getIndex r := (map agedSlot old)[j := r\<lparr>Valid := True\<rparr>]],
                          hitMiss := hitMiss c @ [False]\<rparr>))"
  proof (cases found)
    case True
    with fm have "(map agedSlot old) ! firstMatch old (getTag r) = agedSlot (old ! firstMatch old (getTag r))"
      by simp
    with True show ?thesis
      using Write_by_slot [OF t _ jf jn] sc
      by (simp add: old_def [symmetric] s firstMatch_aged setDirty_def)
  next
    case False
    then show ?thesis
      using Write_by_slot [OF t _ jf jn] sc
      by (simp add: old_def [symmetric] s [symmetric] setValid_def)
  qed
  have 1: "j < length old" using j by simp
  have 2: "isFull_loop old \<Longrightarrow> getOldest_loop (map agedSlot old) 0 0 None = Some j"
    using jf by (simp add: s [symmetric])
  have 3: "\<not> isFull_loop old \<Longrightarrow> j = firstFree old"
    using jn isFull_addAge_loop [of old] by (simp add: s firstFree_aged)
  from 1 2 3 rd wr show thesis by (rule that)
qed

lemma map_update_same: "f y = f (xs ! m) \<Longrightarrow> map f (xs[m := y]) = map f xs"
proof (induction xs arbitrary: m)
  case Nil
  then show ?case by simp
next
  case (Cons x xs)
  then show ?case by (cases m) simp_all
qed

section \<open>The small cache of the examples\<close>

lemma replicate_2: "replicate 2 x = [x, x]"
  by (simp add: numeral_2_eq_2)

lemma ctor_example8:
  "Cache_ctor 2 4 8 = Inr \<lparr>numBlocks = 2, numSets = 1, lineSize = 4, setSize = 2,
                    cacheSize = 8, offsetBits = 2, indexBits = 3, tagBits = 30,
                    hits = 0, accesses = 0,
                    cache = [ [Access_default, Access_default]],
                    trace = [], hitMiss = []\<rparr>"
  by (simp add: Cache_ctor_def calcNumSets_def mul_size_t_def add_size_t_def sub_size_t_def
      replicate_2)

lemma exCache_eq:
  "exCache =
     \<lparr>numBlocks = 2, numSets = 1, lineSize = 4, setSize = 2, cacheSize = 8, offsetBits = 2,
      indexBits = 3, tagBits = 30, hits = 0, accesses = 2,
      cache = [ [\<lparr>getOp = ''Read'', getRefSize = ''4'', getAddress = ''00000000'', getAge = 1,
                 getOffset = 0, getIndex = 0, getTag = 0, Valid = True, Dirty = False\<rparr>,
                \<lparr>getOp = ''Write'', getRefSize = ''4'', getAddress = ''00000004'', getAge = 0,
                 getOffset = 0, getIndex = 0, getTag = 1, Valid = True, Dirty = False\<rparr>]],
      trace = [\<lparr>getOp = ''Read'', getRefSize = ''4'', getAddress = ''00000000'', getAge = 0,
                 getOffset = 0, getIndex = 0, getTag = 0, Valid = True, Dirty = False\<rparr>,
               \<lparr>getOp = ''Write'', getRefSize = ''4'', getAddress = ''00000004'', getAge = 0,
                 getOffset = 0, getIndex = 0, getTag = 1, Valid = True, Dirty = False\<rparr>],
      hitMiss = [False, False]\<rparr>"
  apply (simp add: exCache_def simulate_def ctor_example8 operator_call_def)
  apply (simp add: parseLine_def tokens_def decodeAddress_def setAddress_def calcIndex_def
      blockNum_def calcOffset_def calcTag_def substr_def sub_size_t_def hexBits_def
      binStringToInt_def Access_op_def Let_def)
  apply (simp add: processOne_def Read_def Write_def addAge_def Access_default_def isFull_def
      getOldest_def Insert_def setValid_def Access_addAge_def Let_def)
  done

lemma exMiss_eq:
  "exMiss = \<lparr>getOp = ''Read'', getRefSize = ''4'', getAddress = ''00000008'', getAge = 0,
             getOffset = 0, getIndex = 0, getTag = 2, Valid = True, Dirty = False\<rparr>"
  by (simp add: exMiss_def exCache_eq parseLine_def tokens_def decodeAddress_def setAddress_def
      calcIndex_def blockNum_def calcOffset_def calcTag_def substr_def sub_size_t_def hexBits_def
      binStringToInt_def Access_op_def Let_def)

lemma exHit_eq:
  "exHit = \<lparr>getOp = ''Write'', getRefSize = ''4'', getAddress = ''00000004'', getAge = 0,
             getOffset = 0, getIndex = 0, getTag = 1, Valid = True, Dirty = False\<rparr>"
  by (simp add: exHit_def exCache_eq parseLine_def tokens_def decodeAddress_def setAddress_def
      calcIndex_def blockNum_def calcOffset_def calcTag_def substr_def sub_size_t_def hexBits_def
      binStringToInt_def Access_op_def Let_def)

lemma Read_exMiss:
  "Read exCache exMiss = Inr (False, exMiss,
     exCache\<lparr>cache := [ [exMiss, (cache exCache ! 0 ! 1)\<lparr>getAge := 1\<rparr>]],
             hitMiss := [False, False, False]\<rparr>)"
  by (simp add: exCache_eq exMiss_eq Read_def addAge_def isFull_def getOldest_def Insert_def
      setValid_def Access_addAge_def Let_def)

lemma Read_exHit:
  "Read exCache exHit = Inr (True, exHit,
     exCache\<lparr>cache := [ [(cache exCache ! 0 ! 0)\<lparr>getAge := 2\<rparr>,
                          (cache exCache ! 0 ! 1)\<lparr>getAge := 1\<rparr>]],
             hitMiss := [False, False, True]\<rparr>)"
  by (simp add: exCache_eq exHit_eq Read_def addAge_def isFull_def getOldest_def Insert_def
      setValid_def Access_addAge_def Let_def)

lemma Write_exHit:
  "Write exCache exHit = Inr (True, exHit,
     exCache\<lparr>cache := [ [(cache exCache ! 0 ! 0)\<lparr>getAge := 2\<rparr>,
                          (cache exCache ! 0 ! 1)\<lparr>getAge := 1, Dirty := True\<rparr>]],
             hitMiss := [False, False, True]\<rparr>)"
  by (simp add: exCache_eq exHit_eq Write_def addAge_def isFull_def getOldest_def Insert_def
      setValid_def setDirty_def Access_addAge_def Let_def)

lemma exHitR_eq:
  "exHitR = \<lparr>getOp = ''Write'', getRefSize = ''4'', getAddress = ''00000000'', getAge = 0,
             getOffset = 0, getIndex = 0, getTag = 0, Valid = True, Dirty = False\<rparr>"
  by (simp add: exHitR_def exCache_eq parseLine_def tokens_def decodeAddress_def setAddress_def
      calcIndex_def blockNum_def calcOffset_def calcTag_def substr_def sub_size_t_def hexBits_def
      binStringToInt_def Access_op_def Let_def)

lemma Write_exMiss:
  "Write exCache exMiss = Inr (False, exMiss,
     exCache\<lparr>cache := [ [exMiss, (cache exCache ! 0 ! 1)\<lparr>getAge := 1\<rparr>]],
             hitMiss := [False, False, False]\<rparr>)"
  by (simp add: exCache_eq exMiss_eq Write_def addAge_def isFull_def getOldest_def Insert_def
      setValid_def setDirty_def Access_addAge_def Let_def)

lemma Read_exHitR:
  "Read exCache exHitR = Inr (True, exHitR,
     exCache\<lparr>cache := [ [(cache exCache ! 0 ! 0)\<lparr>getAge := 2\<rparr>,
                          (cache exCache ! 0 ! 1)\<lparr>getAge := 1\<rparr>]],
             hitMiss := [False, False, True]\<rparr>)"
  by (simp add: exCache_eq exHitR_eq Read_def addAge_def isFull_def getOldest_def Insert_def
      setValid_def Access_addAge_def Let_def)

lemma Write_exHitR:
  "Write exCache exHitR = Inr (True, exHitR,
     exCache\<lparr>cache := [ [(cache exCache ! 0 ! 0)\<lparr>getAge := 2, Dirty := True\<rparr>,
                          (cache exCache ! 0 ! 1)\<lparr>getAge := 1\<rparr>]],
             hitMiss := [False, False, True]\<rparr>)"
  by (simp add: exCache_eq exHitR_eq Write_def addAge_def isFull_def getOldest_def Insert_def
      setValid_def setDirty_def Access_addAge_def Let_def)

lemma exParsed_eq:
  "exParsed =
     \<lparr>numBlocks = 2, numSets = 1, lineSize = 4, setSize = 2, cacheSize = 8, offsetBits = 2,
      indexBits = 3, tagBits = 30, hits = 0, accesses = 0,
      cache = [ [Access_default, Access_default]],
      trace = [\<lparr>getOp = ''Read'', getRefSize = ''4'', getAddress = ''00000000'', getAge = 0,
                 getOffset = 0, getIndex = 0, getTag = 0, Valid = True, Dirty = False\<rparr>,
               \<lparr>getOp = ''Write'', getRefSize = ''4'', getAddress = ''00000004'', getAge = 0,
                 getOffset = 0, getIndex = 0, getTag = 1, Valid = True, Dirty = False\<rparr>],
      hitMiss = []\<rparr>"
  by (simp add: exParsed_def ctor_example8 parseLine_def tokens_def decodeAddress_def
      setAddress_def calcIndex_def blockNum_def calcOffset_def calcTag_def substr_def
      sub_size_t_def hexBits_def binStringToInt_def Access_op_def Let_def)

lemma exParsed_run: "processLoop exParsed [0, 1] = Inr exCache"
  by (simp add: exParsed_eq exCache_eq processOne_def Read_def Write_def addAge_def
      Access_default_def isFull_def getOldest_def Insert_def setValid_def Access_addAge_def
      Let_def)

lemma exSim: "simulate 2 4 8 [''R:4:00000000'', ''W:4:00000004''] = Inr exCache"
proof -
  let ?c0 = "\<lparr>numBlocks = 2, numSets = 1, lineSize = 4, setSize = 2,
                    cacheSize = 8, offsetBits = 2, indexBits = 3, tagBits = 30,
                    hits = 0, accesses = 0,
                    cache = [ [Access_default, Access_default]],
                    trace = [], hitMiss = []\<rparr>"
  have p: "parseLines ?c0 [''R:4:00000000'', ''W:4:00000004''] = Inr exParsed"
    unfolding exParsed_eq
    by (simp add: parseLine_def tokens_def decodeAddress_def
      setAddress_def calcIndex_def blockNum_def calcOffset_def calcTag_def substr_def
      sub_size_t_def hexBits_def binStringToInt_def Access_op_def Let_def)
  have l: "[0..<length (trace exParsed)] = [0, 1]" by (simp add: exParsed_eq upt_rec)
  have o: "operator_call ?c0 [''R:4:00000000'', ''W:4:00000004''] = Inr exCache"
    by (simp only: operator_call_def p sum.case l exParsed_run)
  show ?thesis
    by (simp only: simulate_def ctor_example8 sum.case o)
qed

section \<open>Aging (C1)\<close>

text \<open>
  Claim C1. For every access, by \<open>Read\<close> or by \<open>Write\<close>, whose index lies inside the
  cache and whose set has a slot: \<open>addAge\<close> adds one to the age of every valid slot of
  the target set and leaves the other slots as they are; \<open>Read\<close> and \<open>Write\<close> both
  return, and the outcome is a hit exactly when a valid slot of the set, as it was
  before the access, holds the tag. After a hit by \<open>Read\<close> the set is the aged set;
  after a hit by \<open>Write\<close> it is the aged set with the dirty flag of a valid slot
  holding the tag set to true; in both cases the age of every slot that was valid, the
  matched one included, is its age before the access plus one, so nothing is reset.
  After a miss every slot but the one that receives the new line is left aged.
\<close>

theorem ages_incremented_once:
  fixes c :: Cache and r :: Access
  defines "t \<equiv> getIndex r"
  defines "old \<equiv> cache c ! getIndex r"
  defines "found \<equiv> (\<exists>i < length old. Valid (old ! i) \<and> getTag (old ! i) = getTag r)"
  assumes "getIndex r < length (cache c)" and "old \<noteq> []"
  shows "cache (addAge c t) ! t = map agedSlot old \<and>
         (\<exists>r' c'. Read c r = Inr (found, r', c') \<and>
            (found \<longrightarrow>
               cache c' ! t = map agedSlot old \<and>
               (\<forall>i < length old. Valid (old ! i) \<longrightarrow>
                  getAge (cache c' ! t ! i) = getAge (old ! i) + 1)) \<and>
            (\<not> found \<longrightarrow>
               (\<exists>j < length old. cache c' ! t = (map agedSlot old)[j := r\<lparr>Valid := True\<rparr>]))) \<and>
         (\<exists>r' c'. Write c r = Inr (found, r', c') \<and>
            (found \<longrightarrow>
               (\<exists>m < length old.
                  Valid (old ! m) \<and> getTag (old ! m) = getTag r \<and>
                  cache c' ! t = (map agedSlot old)[m := (agedSlot (old ! m))\<lparr>Dirty := True\<rparr>] \<and>
                  getAge (cache c' ! t ! m) = getAge (old ! m) + 1) \<and>
               (\<forall>i < length old. Valid (old ! i) \<longrightarrow>
                  getAge (cache c' ! t ! i) = getAge (old ! i) + 1)) \<and>
            (\<not> found \<longrightarrow>
               (\<exists>j < length old. cache c' ! t = (map agedSlot old)[j := r\<lparr>Valid := True\<rparr>])))"
proof -
  have tl: "t < length (cache c)" using assms(4) by (simp add: t_def)
  have 1: "cache (addAge c t) ! t = map agedSlot old"
    using tl by (simp add: cache_addAge addAge_loop_agedSlot old_def t_def)
  show ?thesis
  proof (rule access_result [OF assms(4) assms(5) [unfolded old_def]])
    fix j
    assume j: "j < length (cache c ! getIndex r)"
      and o0: "isFull_loop (cache c ! getIndex r) \<Longrightarrow>
                 getOldest_loop (map agedSlot (cache c ! getIndex r)) 0 0 None = Some j"
      and f0: "\<not> isFull_loop (cache c ! getIndex r) \<Longrightarrow> j = firstFree (cache c ! getIndex r)"
      and rd0: "Read c r =
               (if (\<exists>i < length (cache c ! getIndex r). Valid (cache c ! getIndex r ! i) \<and> getTag (cache c ! getIndex r ! i) = getTag r)
                then Inr (True, r, c\<lparr>cache := (cache c)[getIndex r := map agedSlot (cache c ! getIndex r)],
                                      hitMiss := hitMiss c @ [True]\<rparr>)
                else Inr (False, r\<lparr>Valid := True\<rparr>,
                          c\<lparr>cache := (cache c)[getIndex r := (map agedSlot (cache c ! getIndex r))[j := r\<lparr>Valid := True\<rparr>]],
                            hitMiss := hitMiss c @ [False]\<rparr>))"
      and wr0: "Write c r =
               (if (\<exists>i < length (cache c ! getIndex r). Valid (cache c ! getIndex r ! i) \<and> getTag (cache c ! getIndex r ! i) = getTag r)
                then Inr (True, r,
                          c\<lparr>cache := (cache c)[getIndex r := (map agedSlot (cache c ! getIndex r))
                                 [firstMatch (cache c ! getIndex r) (getTag r) :=
                                    (agedSlot (cache c ! getIndex r ! firstMatch (cache c ! getIndex r) (getTag r)))\<lparr>Dirty := True\<rparr>]],
                            hitMiss := hitMiss c @ [True]\<rparr>)
                else Inr (False, r\<lparr>Valid := True\<rparr>,
                          c\<lparr>cache := (cache c)[getIndex r := (map agedSlot (cache c ! getIndex r))[j := r\<lparr>Valid := True\<rparr>]],
                            hitMiss := hitMiss c @ [False]\<rparr>))"
    note rd = rd0 [folded old_def, folded found_def t_def]
    note wr = wr0 [folded old_def, folded found_def t_def]
    have j: "j < length old" using j by (simp add: old_def)
    let ?hit = "c\<lparr>cache := (cache c)[t := map agedSlot old], hitMiss := hitMiss c @ [True]\<rparr>"
    let ?m = "firstMatch old (getTag r)"
    let ?whit = "c\<lparr>cache := (cache c)[t := (map agedSlot old)
                             [?m := (agedSlot (old ! ?m))\<lparr>Dirty := True\<rparr>]],
                    hitMiss := hitMiss c @ [True]\<rparr>"
    let ?miss = "c\<lparr>cache := (cache c)[t := (map agedSlot old)[j := r\<lparr>Valid := True\<rparr>]],
                    hitMiss := hitMiss c @ [False]\<rparr>"
    show ?thesis
    proof (cases found)
      case False
      have r: "Read c r = Inr (found, r\<lparr>Valid := True\<rparr>, ?miss)" using False by (simp add: rd)
      have w: "Write c r = Inr (found, r\<lparr>Valid := True\<rparr>, ?miss)" using False by (simp add: wr)
      have "cache ?miss ! t = (map agedSlot old)[j := r\<lparr>Valid := True\<rparr>]" using tl by simp
      with j have e: "\<exists>j < length old. cache ?miss ! t = (map agedSlot old)[j := r\<lparr>Valid := True\<rparr>]"
        by blast
      from False r e have 2: "\<exists>r' c'. Read c r = Inr (found, r', c') \<and>
              (found \<longrightarrow>
                 cache c' ! t = map agedSlot old \<and>
                 (\<forall>i < length old. Valid (old ! i) \<longrightarrow>
                    getAge (cache c' ! t ! i) = getAge (old ! i) + 1)) \<and>
              (\<not> found \<longrightarrow>
                 (\<exists>j < length old. cache c' ! t = (map agedSlot old)[j := r\<lparr>Valid := True\<rparr>]))"
        by blast
      from False w e have 3: "\<exists>r' c'. Write c r = Inr (found, r', c') \<and>
              (found \<longrightarrow>
                 (\<exists>m < length old.
                    Valid (old ! m) \<and> getTag (old ! m) = getTag r \<and>
                    cache c' ! t = (map agedSlot old)[m := (agedSlot (old ! m))\<lparr>Dirty := True\<rparr>] \<and>
                    getAge (cache c' ! t ! m) = getAge (old ! m) + 1) \<and>
                 (\<forall>i < length old. Valid (old ! i) \<longrightarrow>
                    getAge (cache c' ! t ! i) = getAge (old ! i) + 1)) \<and>
              (\<not> found \<longrightarrow>
                 (\<exists>j < length old. cache c' ! t = (map agedSlot old)[j := r\<lparr>Valid := True\<rparr>]))"
        by blast
      from 1 2 3 show ?thesis by (intro conjI)
    next
      case True
      have sc: "Read_scan old (getTag r)" using True by (simp add: Read_scan_iff found_def)
      from firstMatch_props [OF sc] have m: "?m < length old" and v: "Valid (old ! ?m)"
        and g: "getTag (old ! ?m) = getTag r" by blast+
      have r: "Read c r = Inr (found, r, ?hit)" using True by (simp add: rd)
      have w: "Write c r = Inr (found, r, ?whit)" using True by (simp add: wr)
      have ch: "cache ?hit ! t = map agedSlot old" using tl by simp
      have cw: "cache ?whit ! t = (map agedSlot old)[?m := (agedSlot (old ! ?m))\<lparr>Dirty := True\<rparr>]"
        using tl by simp
      have a: "\<forall>i < length old. Valid (old ! i) \<longrightarrow>
                 getAge (cache ?hit ! t ! i) = getAge (old ! i) + 1"
        unfolding ch by (simp add: agedSlot_def)
      have b: "\<forall>i < length old. Valid (old ! i) \<longrightarrow>
                 getAge (cache ?whit ! t ! i) = getAge (old ! i) + 1"
        unfolding cw using v m by (auto simp: agedSlot_def nth_list_update)
      from b m v have bm: "getAge (cache ?whit ! t ! ?m) = getAge (old ! ?m) + 1" by blast
      from m v g cw bm have e: "\<exists>m < length old.
                    Valid (old ! m) \<and> getTag (old ! m) = getTag r \<and>
                    cache ?whit ! t = (map agedSlot old)[m := (agedSlot (old ! m))\<lparr>Dirty := True\<rparr>] \<and>
                    getAge (cache ?whit ! t ! m) = getAge (old ! m) + 1"
        by blast
      from True r ch a have 2: "\<exists>r' c'. Read c r = Inr (found, r', c') \<and>
              (found \<longrightarrow>
                 cache c' ! t = map agedSlot old \<and>
                 (\<forall>i < length old. Valid (old ! i) \<longrightarrow>
                    getAge (cache c' ! t ! i) = getAge (old ! i) + 1)) \<and>
              (\<not> found \<longrightarrow>
                 (\<exists>j < length old. cache c' ! t = (map agedSlot old)[j := r\<lparr>Valid := True\<rparr>]))"
        by blast
      from True w e b have 3: "\<exists>r' c'. Write c r = Inr (found, r', c') \<and>
              (found \<longrightarrow>
                 (\<exists>m < length old.
                    Valid (old ! m) \<and> getTag (old ! m) = getTag r \<and>
                    cache c' ! t = (map agedSlot old)[m := (agedSlot (old ! m))\<lparr>Dirty := True\<rparr>] \<and>
                    getAge (cache c' ! t ! m) = getAge (old ! m) + 1) \<and>
                 (\<forall>i < length old. Valid (old ! i) \<longrightarrow>
                    getAge (cache c' ! t ! i) = getAge (old ! i) + 1)) \<and>
              (\<not> found \<longrightarrow>
                 (\<exists>j < length old. cache c' ! t = (map agedSlot old)[j := r\<lparr>Valid := True\<rparr>]))"
        by blast
      from 1 2 3 show ?thesis by (intro conjI)
    qed
  qed
qed

theorem ages_incremented_once_witness:
  "getIndex exHit < length (cache exCache) \<and> cache exCache ! getIndex exHit \<noteq> [] \<and>
   map getAge (cache exCache ! 0) = [1, 0] \<and>
   Read exCache exHit = Inr (True, exHit,
     exCache\<lparr>cache := [ [(cache exCache ! 0 ! 0)\<lparr>getAge := 2\<rparr>,
                          (cache exCache ! 0 ! 1)\<lparr>getAge := 1\<rparr>]],
             hitMiss := [False, False, True]\<rparr>) \<and>
   Write exCache exHit = Inr (True, exHit,
     exCache\<lparr>cache := [ [(cache exCache ! 0 ! 0)\<lparr>getAge := 2\<rparr>,
                          (cache exCache ! 0 ! 1)\<lparr>getAge := 1, Dirty := True\<rparr>]],
             hitMiss := [False, False, True]\<rparr>) \<and>
   Write exCache exMiss = Inr (False, exMiss,
     exCache\<lparr>cache := [ [exMiss, (cache exCache ! 0 ! 1)\<lparr>getAge := 1\<rparr>]],
             hitMiss := [False, False, False]\<rparr>) \<and>
   getAge exMiss = 0 \<and>
   map getAge (map agedSlot (cache exCache ! getIndex exHit)) = [2, 1]"
proof -
  have 1: "getIndex exHit < length (cache exCache)" by (simp add: exCache_eq exHit_eq)
  have 2: "cache exCache ! getIndex exHit \<noteq> []" by (simp add: exCache_eq exHit_eq)
  have 3: "map getAge (cache exCache ! 0) = [1, 0]" by (simp add: exCache_eq)
  have 4: "map getAge (map agedSlot (cache exCache ! getIndex exHit)) = [2, 1]"
    by (simp add: exCache_eq exHit_eq agedSlot_def)
  have 5: "getAge exMiss = 0" by (simp add: exMiss_eq)
  from ages_incremented_once [OF 1 2] 1 2 3 4 5 Read_exHit Write_exHit Write_exMiss
  show ?thesis by blast
qed

section \<open>Eviction (C2)\<close>

text \<open>
  Claim C2. For an access of age 0, as the trace holds them, to a set with at least one
  slot, all of whose slots are valid and none of which holds the tag (a miss to a full
  set): there is a slot \<open>j\<close> of the set whose age is the greatest of the set and
  strictly greater than that of every slot before it (the first of the oldest slots in
  scan order); it is the slot \<open>getOldest\<close> returns for the aged set; \<open>Read\<close> and
  \<open>Write\<close> both return a miss and the same cache, in which slot \<open>j\<close> holds the access,
  valid, with its tag and with age 0, and every other slot of the set is the slot
  before the access with its age increased by one.
\<close>

theorem eviction_takes_oldest:
  fixes c :: Cache and r :: Access
  defines "t \<equiv> getIndex r"
  defines "old \<equiv> cache c ! getIndex r"
  assumes "getIndex r < length (cache c)" and "old \<noteq> []"
    and "\<forall>i < length old. Valid (old ! i)"
    and "\<forall>i < length old. getTag (old ! i) \<noteq> getTag r"
    and "getAge r = 0"
  shows "isFull c t \<and>
         (\<exists>j < length old.
            (\<forall>k < length old. getAge (old ! k) \<le> getAge (old ! j)) \<and>
            (\<forall>k < j. getAge (old ! k) < getAge (old ! j)) \<and>
            getOldest (addAge c t) t = Some j \<and>
            (\<exists>c'. Read c r = Inr (False, r\<lparr>Valid := True\<rparr>, c') \<and>
                   Write c r = Inr (False, r\<lparr>Valid := True\<rparr>, c') \<and>
                   length (cache c' ! t) = length old \<and>
                   cache c' ! t ! j = r\<lparr>Valid := True\<rparr> \<and>
                   Valid (cache c' ! t ! j) \<and> getTag (cache c' ! t ! j) = getTag r \<and>
                   getAge (cache c' ! t ! j) = 0 \<and>
                   (\<forall>i < length old. i \<noteq> j \<longrightarrow>
                      cache c' ! t ! i = (old ! i)\<lparr>getAge := getAge (old ! i) + 1\<rparr>)))"
proof -
  have tl: "t < length (cache c)" using assms(3) by (simp add: t_def)
  have full: "isFull_loop old" using assms(5) by (simp add: isFull_loop_iff)
  have nf: "\<not> (\<exists>i < length old. Valid (old ! i) \<and> getTag (old ! i) = getTag r)"
    using assms(6) by blast
  show ?thesis
  proof (rule access_result [OF assms(3) assms(4) [unfolded old_def]])
    fix j
    assume j0: "j < length (cache c ! getIndex r)"
      and o0: "isFull_loop (cache c ! getIndex r) \<Longrightarrow>
                 getOldest_loop (map agedSlot (cache c ! getIndex r)) 0 0 None = Some j"
      and f0: "\<not> isFull_loop (cache c ! getIndex r) \<Longrightarrow> j = firstFree (cache c ! getIndex r)"
      and rd0: "Read c r =
               (if (\<exists>i < length (cache c ! getIndex r). Valid (cache c ! getIndex r ! i) \<and> getTag (cache c ! getIndex r ! i) = getTag r)
                then Inr (True, r, c\<lparr>cache := (cache c)[getIndex r := map agedSlot (cache c ! getIndex r)],
                                      hitMiss := hitMiss c @ [True]\<rparr>)
                else Inr (False, r\<lparr>Valid := True\<rparr>,
                          c\<lparr>cache := (cache c)[getIndex r := (map agedSlot (cache c ! getIndex r))[j := r\<lparr>Valid := True\<rparr>]],
                            hitMiss := hitMiss c @ [False]\<rparr>))"
      and wr0: "Write c r =
               (if (\<exists>i < length (cache c ! getIndex r). Valid (cache c ! getIndex r ! i) \<and> getTag (cache c ! getIndex r ! i) = getTag r)
                then Inr (True, r,
                          c\<lparr>cache := (cache c)[getIndex r := (map agedSlot (cache c ! getIndex r))
                                 [firstMatch (cache c ! getIndex r) (getTag r) :=
                                    (agedSlot (cache c ! getIndex r ! firstMatch (cache c ! getIndex r) (getTag r)))\<lparr>Dirty := True\<rparr>]],
                            hitMiss := hitMiss c @ [True]\<rparr>)
                else Inr (False, r\<lparr>Valid := True\<rparr>,
                          c\<lparr>cache := (cache c)[getIndex r := (map agedSlot (cache c ! getIndex r))[j := r\<lparr>Valid := True\<rparr>]],
                            hitMiss := hitMiss c @ [False]\<rparr>))"
    let ?miss = "c\<lparr>cache := (cache c)[t := (map agedSlot old)[j := r\<lparr>Valid := True\<rparr>]],
                    hitMiss := hitMiss c @ [False]\<rparr>"
    have j: "j < length old" using j0 by (simp add: old_def)
    have o: "getOldest_loop (map agedSlot old) 0 0 None = Some j"
      using o0 full by (simp add: old_def)
    have rd: "Read c r = Inr (False, r\<lparr>Valid := True\<rparr>, ?miss)"
      using nf by (simp add: rd0 old_def t_def)
    have wr: "Write c r = Inr (False, r\<lparr>Valid := True\<rparr>, ?miss)"
      using nf by (simp add: wr0 old_def t_def)
    have io: "isOldest (map agedSlot old) j" using getOldest_loop_spec [of "map agedSlot old"] o by simp
    have age: "getAge (map agedSlot old ! k) = getAge (old ! k) + 1" if "k < length old" for k
      using that assms(5) by (simp add: agedSlot_def)
    have 1: "isFull c t" using full by (simp add: isFull_def old_def t_def)
    have 2: "\<forall>k < length old. getAge (old ! k) \<le> getAge (old ! j)"
      using io assms(5) j by (auto simp: isOldest_def agedSlot_def)
    have 3: "\<forall>k < j. getAge (old ! k) < getAge (old ! j)"
      using io assms(5) j by (auto simp: isOldest_def agedSlot_def)
    have 4: "getOldest (addAge c t) t = Some j"
      using tl o by (simp add: getOldest_def cache_addAge addAge_loop_agedSlot old_def t_def)
    have cm: "cache ?miss ! t = (map agedSlot old)[j := r\<lparr>Valid := True\<rparr>]" using tl by simp
    have 5: "length (cache ?miss ! t) = length old" unfolding cm by simp
    have 6: "cache ?miss ! t ! j = r\<lparr>Valid := True\<rparr>" unfolding cm using j by simp
    have 7: "Valid (cache ?miss ! t ! j)" "getTag (cache ?miss ! t ! j) = getTag r"
      "getAge (cache ?miss ! t ! j) = 0"
      unfolding 6 using assms(7) by simp_all
    have 8: "\<forall>i < length old. i \<noteq> j \<longrightarrow>
               cache ?miss ! t ! i = (old ! i)\<lparr>getAge := getAge (old ! i) + 1\<rparr>"
      unfolding cm using assms(5) by (simp add: agedSlot_def)
    from rd wr 5 6 7 8 have 9: "\<exists>c'. Read c r = Inr (False, r\<lparr>Valid := True\<rparr>, c') \<and>
                     Write c r = Inr (False, r\<lparr>Valid := True\<rparr>, c') \<and>
                     length (cache c' ! t) = length old \<and>
                     cache c' ! t ! j = r\<lparr>Valid := True\<rparr> \<and>
                     Valid (cache c' ! t ! j) \<and> getTag (cache c' ! t ! j) = getTag r \<and>
                     getAge (cache c' ! t ! j) = 0 \<and>
                     (\<forall>i < length old. i \<noteq> j \<longrightarrow>
                        cache c' ! t ! i = (old ! i)\<lparr>getAge := getAge (old ! i) + 1\<rparr>)"
      by blast
    from j 2 3 4 9 have "\<exists>j < length old.
              (\<forall>k < length old. getAge (old ! k) \<le> getAge (old ! j)) \<and>
              (\<forall>k < j. getAge (old ! k) < getAge (old ! j)) \<and>
              getOldest (addAge c t) t = Some j \<and>
              (\<exists>c'. Read c r = Inr (False, r\<lparr>Valid := True\<rparr>, c') \<and>
                     Write c r = Inr (False, r\<lparr>Valid := True\<rparr>, c') \<and>
                     length (cache c' ! t) = length old \<and>
                     cache c' ! t ! j = r\<lparr>Valid := True\<rparr> \<and>
                     Valid (cache c' ! t ! j) \<and> getTag (cache c' ! t ! j) = getTag r \<and>
                     getAge (cache c' ! t ! j) = 0 \<and>
                     (\<forall>i < length old. i \<noteq> j \<longrightarrow>
                        cache c' ! t ! i = (old ! i)\<lparr>getAge := getAge (old ! i) + 1\<rparr>))"
      by blast
    with 1 show ?thesis by (intro conjI)
  qed
qed

theorem eviction_takes_oldest_witness:
  "getIndex exMiss < length (cache exCache) \<and> cache exCache ! getIndex exMiss \<noteq> [] \<and>
   map Valid (cache exCache ! getIndex exMiss) = [True, True] \<and>
   map getTag (cache exCache ! getIndex exMiss) = [0, 1] \<and> getTag exMiss = 2 \<and>
   map getAge (cache exCache ! getIndex exMiss) = [1, 0] \<and>
   getAge exMiss = 0 \<and>
   getOldest (addAge exCache (getIndex exMiss)) (getIndex exMiss) = Some 0 \<and>
   Read exCache exMiss = Inr (False, exMiss,
     exCache\<lparr>cache := [ [exMiss, (cache exCache ! 0 ! 1)\<lparr>getAge := 1\<rparr>]],
             hitMiss := [False, False, False]\<rparr>) \<and>
   Write exCache exMiss = Inr (False, exMiss,
     exCache\<lparr>cache := [ [exMiss, (cache exCache ! 0 ! 1)\<lparr>getAge := 1\<rparr>]],
             hitMiss := [False, False, False]\<rparr>)"
proof -
  have 1: "getIndex exMiss < length (cache exCache)" by (simp add: exCache_eq exMiss_eq)
  have 2: "cache exCache ! getIndex exMiss \<noteq> []" by (simp add: exCache_eq exMiss_eq)
  have 3: "\<forall>i < length (cache exCache ! getIndex exMiss). Valid (cache exCache ! getIndex exMiss ! i)"
    by (simp add: exCache_eq exMiss_eq less_Suc_eq)
  have 4: "\<forall>i < length (cache exCache ! getIndex exMiss).
             getTag (cache exCache ! getIndex exMiss ! i) \<noteq> getTag exMiss"
    by (simp add: exCache_eq exMiss_eq less_Suc_eq)
  have 5: "getAge exMiss = 0" by (simp add: exMiss_eq)
  have 6: "map Valid (cache exCache ! getIndex exMiss) = [True, True]"
    "map getTag (cache exCache ! getIndex exMiss) = [0, 1]" "getTag exMiss = 2"
    "map getAge (cache exCache ! getIndex exMiss) = [1, 0]"
    by (simp_all add: exCache_eq exMiss_eq)
  have 7: "getOldest (addAge exCache (getIndex exMiss)) (getIndex exMiss) = Some 0"
    by (simp add: getOldest_def addAge_def exCache_eq exMiss_eq Access_addAge_def)
  from eviction_takes_oldest [OF 1 2 3 4 5] 1 2 5 6 7 Read_exMiss Write_exMiss
  show ?thesis by blast
qed

section \<open>Write against Read (C5)\<close>

text \<open>
  Claim C5. For every cache and every access: \<open>Write\<close> fails where \<open>Read\<close> fails, and
  otherwise returns the outcome and the access that \<open>Read\<close> returns; where the index
  lies inside the cache and the set has a slot, both return. After a hit, with \<open>m\<close> the
  first valid slot of the set that holds the tag, the cache of \<open>Write\<close> is that of
  \<open>Read\<close> with the dirty flag of slot \<open>m\<close> set to true: the flag is true afterwards,
  every other slot is equal, and the valid flags, tags and ages of all slots of all
  sets are equal. After a miss the two caches are equal, and a slot of the set holds the
  access, valid and with the dirty flag of the access, which is false for every record
  of the trace.
\<close>

theorem write_is_read_with_dirty_mark:
  "Write c a =
     map_sum id (\<lambda>(h, a', c'). (h, a', if h then markDirty c' (getIndex a) (getTag a) else c'))
       (Read c a) \<and>
   (getIndex a < length (cache c) \<and> cache c ! getIndex a \<noteq> [] \<longrightarrow>
      (\<exists>h r k. Read c a = Inr (h, r, k))) \<and>
   (Read c a = Inr (True, a', c') \<longrightarrow>
      (\<exists>m < length (cache c' ! getIndex a). \<exists>cw.
         Valid (cache c' ! getIndex a ! m) \<and> getTag (cache c' ! getIndex a ! m) = getTag a \<and>
         (\<forall>i < m. \<not> (Valid (cache c' ! getIndex a ! i) \<and>
                        getTag (cache c' ! getIndex a ! i) = getTag a)) \<and>
         Write c a = Inr (True, a', cw) \<and>
         cw = c'\<lparr>cache := (cache c')[getIndex a := (cache c' ! getIndex a)
                                [m := (cache c' ! getIndex a ! m)\<lparr>Dirty := True\<rparr>]]\<rparr> \<and>
         Dirty (cache cw ! getIndex a ! m) \<and>
         (\<forall>i < length (cache c' ! getIndex a). i \<noteq> m \<longrightarrow>
            cache cw ! getIndex a ! i = cache c' ! getIndex a ! i) \<and>
         map (map (\<lambda>x. (Valid x, getTag x, getAge x))) (cache cw) =
           map (map (\<lambda>x. (Valid x, getTag x, getAge x))) (cache c'))) \<and>
   (Read c a = Inr (False, a', c') \<longrightarrow>
      Write c a = Inr (False, a', c') \<and> a' = a\<lparr>Valid := True\<rparr> \<and>
      (\<exists>j < length (cache c' ! getIndex a).
         cache c' ! getIndex a ! j = a\<lparr>Valid := True\<rparr> \<and> Valid (cache c' ! getIndex a ! j) \<and>
         Dirty (cache c' ! getIndex a ! j) = Dirty a))"
proof (cases "getIndex a < length (cache c)")
  case False
  then show ?thesis by (simp add: Read_def Write_def)
next
  case True
  let ?t = "getIndex a"
  let ?s = "addAge_loop (cache c ! ?t)"
  let ?g = "\<lambda>x. (Valid x, getTag x, getAge x)"
  have ff: "\<not> isFull_loop ?s \<Longrightarrow> firstFree ?s < length ?s"
    using firstFree_props [of ?s] by simp
  have old: "getOldest_loop ?s 0 0 None = Some j \<Longrightarrow> j < length ?s" for j
    using getOldest_loop_spec [of ?s] by (simp add: isOldest_def)
  have 1: "Write c a =
           map_sum id (\<lambda>(h, a', c'). (h, a', if h then markDirty c' (getIndex a) (getTag a) else c'))
             (Read c a)"
    using True by (simp add: Read_eq Write_eq Let_def markDirty_def setDirty_def split: option.splits)
  have 2: "getIndex a < length (cache c) \<and> cache c ! getIndex a \<noteq> [] \<longrightarrow>
             (\<exists>h r k. Read c a = Inr (h, r, k))"
  proof
    assume "getIndex a < length (cache c) \<and> cache c ! getIndex a \<noteq> []"
    then have ne: "cache c ! ?t \<noteq> []" by simp
    show "\<exists>h r k. Read c a = Inr (h, r, k)"
      by (rule access_result [OF True ne]) auto
  qed
  have 3: "Read c a = Inr (True, a', c') \<longrightarrow>
      (\<exists>m < length (cache c' ! getIndex a). \<exists>cw.
         Valid (cache c' ! getIndex a ! m) \<and> getTag (cache c' ! getIndex a ! m) = getTag a \<and>
         (\<forall>i < m. \<not> (Valid (cache c' ! getIndex a ! i) \<and>
                        getTag (cache c' ! getIndex a ! i) = getTag a)) \<and>
         Write c a = Inr (True, a', cw) \<and>
         cw = c'\<lparr>cache := (cache c')[getIndex a := (cache c' ! getIndex a)
                                [m := (cache c' ! getIndex a ! m)\<lparr>Dirty := True\<rparr>]]\<rparr> \<and>
         Dirty (cache cw ! getIndex a ! m) \<and>
         (\<forall>i < length (cache c' ! getIndex a). i \<noteq> m \<longrightarrow>
            cache cw ! getIndex a ! i = cache c' ! getIndex a ! i) \<and>
         map (map ?g) (cache cw) = map (map ?g) (cache c'))"
  proof
    assume r: "Read c a = Inr (True, a', c')"
    let ?u = "cache c' ! ?t"
    let ?m = "firstMatch ?u (getTag a)"
    let ?cw = "c'\<lparr>cache := (cache c')[?t := ?u[?m := (?u ! ?m)\<lparr>Dirty := True\<rparr>]]\<rparr>"
    have tl: "?t < length (cache c')" using Read_fields(6) [OF r] True by simp
    have sc: "Read_scan ?u (getTag a)"
      using r True by (auto simp: Read_eq Let_def split: if_splits option.splits)
    from firstMatch_props [OF sc] have m: "?m < length ?u" and v: "Valid (?u ! ?m)"
      and g: "getTag (?u ! ?m) = getTag a" by blast+
    have f: "\<forall>i < ?m. \<not> (Valid (?u ! i) \<and> getTag (?u ! i) = getTag a)"
      using firstMatch_first [of _ ?u "getTag a"] m by simp
    have w: "Write c a = Inr (True, a', ?cw)" using r by (simp add: 1 markDirty_def)
    have cu: "cache ?cw ! ?t = ?u[?m := (?u ! ?m)\<lparr>Dirty := True\<rparr>]" using tl by simp
    have d: "Dirty (cache ?cw ! ?t ! ?m)" unfolding cu using m by simp
    have o: "\<forall>i < length ?u. i \<noteq> ?m \<longrightarrow> cache ?cw ! ?t ! i = ?u ! i"
      unfolding cu by simp
    have "map ?g (?u[?m := (?u ! ?m)\<lparr>Dirty := True\<rparr>]) = map ?g ?u"
      by (rule map_update_same) simp
    then have "map (map ?g) ((cache c')[?t := ?u[?m := (?u ! ?m)\<lparr>Dirty := True\<rparr>]]) =
               map (map ?g) (cache c')"
      by (rule map_update_same)
    then have e: "map (map ?g) (cache ?cw) = map (map ?g) (cache c')" by simp
    from m v g f w d o e
    show "\<exists>m < length ?u. \<exists>cw.
         Valid (?u ! m) \<and> getTag (?u ! m) = getTag a \<and>
         (\<forall>i < m. \<not> (Valid (?u ! i) \<and> getTag (?u ! i) = getTag a)) \<and>
         Write c a = Inr (True, a', cw) \<and>
         cw = c'\<lparr>cache := (cache c')[?t := ?u[m := (?u ! m)\<lparr>Dirty := True\<rparr>]]\<rparr> \<and>
         Dirty (cache cw ! ?t ! m) \<and>
         (\<forall>i < length ?u. i \<noteq> m \<longrightarrow> cache cw ! ?t ! i = ?u ! i) \<and>
         map (map ?g) (cache cw) = map (map ?g) (cache c')"
      by blast
  qed
  have 4: "Read c a = Inr (False, a', c') \<longrightarrow>
      Write c a = Inr (False, a', c') \<and> a' = a\<lparr>Valid := True\<rparr> \<and>
      (\<exists>j < length (cache c' ! getIndex a).
         cache c' ! getIndex a ! j = a\<lparr>Valid := True\<rparr> \<and> Valid (cache c' ! getIndex a ! j) \<and>
         Dirty (cache c' ! getIndex a ! j) = Dirty a)"
  proof
    assume r: "Read c a = Inr (False, a', c')"
    have w: "Write c a = Inr (False, a', c')" using r by (simp add: 1)
    have a': "a' = a\<lparr>Valid := True\<rparr>"
      using r True by (auto simp: Read_eq Let_def setValid_def split: if_splits option.splits)
    have e: "\<exists>j < length (cache c' ! getIndex a).
               cache c' ! getIndex a ! j = a\<lparr>Valid := True\<rparr> \<and> Valid (cache c' ! getIndex a ! j) \<and>
               Dirty (cache c' ! getIndex a ! j) = Dirty a"
    proof (cases "isFull_loop ?s")
      case full: True
      with r True obtain j where j: "getOldest_loop ?s 0 0 None = Some j"
        and c': "cache c' ! getIndex a = ?s[j := setValid a]"
        by (auto simp: Read_eq Let_def split: if_splits option.splits)
      from old [OF j] show ?thesis
        by (intro exI [of _ j]) (simp add: c' setValid_def)
    next
      case nf: False
      with r True have c': "cache c' ! getIndex a = ?s[firstFree ?s := setValid a]"
        by (auto simp: Read_eq Let_def split: if_splits option.splits)
      from ff [OF nf] show ?thesis
        by (intro exI [of _ "firstFree ?s"]) (simp add: c' setValid_def)
    qed
    from w a' e show "Write c a = Inr (False, a', c') \<and> a' = a\<lparr>Valid := True\<rparr> \<and>
      (\<exists>j < length (cache c' ! getIndex a).
         cache c' ! getIndex a ! j = a\<lparr>Valid := True\<rparr> \<and> Valid (cache c' ! getIndex a ! j) \<and>
         Dirty (cache c' ! getIndex a ! j) = Dirty a)"
      by (intro conjI)
  qed
  from 1 2 3 4 show ?thesis by (intro conjI)
qed

theorem write_is_read_with_dirty_mark_witness:
  "\<not> Dirty (cache exCache ! 0 ! 0) \<and> getOp (cache exCache ! 0 ! 0) = ''Read'' \<and>
   \<not> Dirty (cache exCache ! 0 ! 1) \<and>
   Read exCache exHitR = Inr (True, exHitR,
     exCache\<lparr>cache := [ [(cache exCache ! 0 ! 0)\<lparr>getAge := 2\<rparr>,
                          (cache exCache ! 0 ! 1)\<lparr>getAge := 1\<rparr>]],
             hitMiss := [False, False, True]\<rparr>) \<and>
   Write exCache exHitR = Inr (True, exHitR,
     exCache\<lparr>cache := [ [(cache exCache ! 0 ! 0)\<lparr>getAge := 2, Dirty := True\<rparr>,
                          (cache exCache ! 0 ! 1)\<lparr>getAge := 1\<rparr>]],
             hitMiss := [False, False, True]\<rparr>) \<and>
   (\<exists>cr. Read exCache exHitR = Inr (True, exHitR, cr) \<and> map Dirty (cache cr ! 0) = [False, False]) \<and>
   (\<exists>cw. Write exCache exHitR = Inr (True, exHitR, cw) \<and> map Dirty (cache cw ! 0) = [True, False]) \<and>
   (\<exists>cw. Write exCache exHit = Inr (True, exHit, cw) \<and> map Dirty (cache cw ! 0) = [False, True]) \<and>
   firstMatch (map agedSlot (cache exCache ! 0)) (getTag exHitR) = 0 \<and>
   Read exCache exMiss = Inr (False, exMiss,
     exCache\<lparr>cache := [ [exMiss, (cache exCache ! 0 ! 1)\<lparr>getAge := 1\<rparr>]],
             hitMiss := [False, False, False]\<rparr>) \<and>
   Write exCache exMiss = Read exCache exMiss \<and> \<not> Dirty exMiss"
proof -
  have d: "\<not> Dirty exMiss" by (simp add: exMiss_eq)
  have b: "\<not> Dirty (cache exCache ! 0 ! 0)" "getOp (cache exCache ! 0 ! 0) = ''Read''"
    "\<not> Dirty (cache exCache ! 0 ! 1)"
    by (simp_all add: exCache_eq)
  have f: "firstMatch (map agedSlot (cache exCache ! 0)) (getTag exHitR) = 0"
    by (simp add: exCache_eq exHitR_eq agedSlot_def)
  have r: "\<exists>cr. Read exCache exHitR = Inr (True, exHitR, cr) \<and>
                 map Dirty (cache cr ! 0) = [False, False]"
    unfolding Read_exHitR by (simp add: exCache_eq)
  have w: "\<exists>cw. Write exCache exHitR = Inr (True, exHitR, cw) \<and>
                 map Dirty (cache cw ! 0) = [True, False]"
    unfolding Write_exHitR by (simp add: exCache_eq)
  have w2: "\<exists>cw. Write exCache exHit = Inr (True, exHit, cw) \<and>
                 map Dirty (cache cw ! 0) = [False, True]"
    unfolding Write_exHit by (simp add: exCache_eq)
  have m: "Write exCache exMiss = Read exCache exMiss"
    using write_is_read_with_dirty_mark [of exCache exMiss] by (simp add: Read_exMiss)
  from write_is_read_with_dirty_mark [of exCache exHitR] d b f r w w2 m
    Read_exHitR Write_exHitR Read_exMiss
  show ?thesis by blast
qed

section \<open>getOldest at its call sites (C10)\<close>

text \<open>
  Claim C10. \<open>getOldest\<close> returns a slot exactly when some valid slot of the set has a
  positive age. At its call sites in \<open>Read\<close> and \<open>Write\<close> the set has been aged and
  is full: for a set with at least one slot, as every set of a constructed cache has,
  every slot is then valid with age at least 1 and \<open>getOldest\<close> returns a slot, so
  \<open>Read\<close> and \<open>Write\<close> always return a result.
\<close>

theorem getOldest_defined_at_call:
  assumes "getIndex r < length (cache c)" and "cache c ! getIndex r \<noteq> []"
  shows "((\<exists>j. getOldest k t = Some j) =
            (\<exists>i < length (cache k ! t). Valid (cache k ! t ! i) \<and> 0 < getAge (cache k ! t ! i))) \<and>
         (isFull ((addAge c (getIndex r))\<lparr>hitMiss := hm\<rparr>) (getIndex r) \<longrightarrow>
            (\<forall>i < length (cache (addAge c (getIndex r)) ! getIndex r).
               Valid (cache (addAge c (getIndex r)) ! getIndex r ! i) \<and>
               1 \<le> getAge (cache (addAge c (getIndex r)) ! getIndex r ! i)) \<and>
            (\<exists>j. getOldest ((addAge c (getIndex r))\<lparr>hitMiss := hm\<rparr>) (getIndex r) = Some j)) \<and>
         (\<exists>res. Read c r = Inr res) \<and> (\<exists>res. Write c r = Inr res)"
proof -
  let ?t = "getIndex r"
  let ?s = "addAge_loop (cache c ! ?t)"
  have 1: "(\<exists>j. getOldest k t = Some j) =
            (\<exists>i < length (cache k ! t). Valid (cache k ! t ! i) \<and> 0 < getAge (cache k ! t ! i))"
    unfolding getOldest_def by (rule getOldest_loop_Some_iff)
  have ex: "isFull_loop ?s \<Longrightarrow> \<exists>j. getOldest_loop ?s 0 0 None = Some j"
    using getOldest_loop_full_aged [OF assms(2)] by simp
  have ages: "isFull_loop ?s \<Longrightarrow> \<forall>i < length ?s. Valid (?s ! i) \<and> 1 \<le> getAge (?s ! i)"
    by (simp add: isFull_loop_iff getAge_addAge_loop)
  have 2: "isFull ((addAge c ?t)\<lparr>hitMiss := hm\<rparr>) ?t \<longrightarrow>
            (\<forall>i < length (cache (addAge c ?t) ! ?t).
               Valid (cache (addAge c ?t) ! ?t ! i) \<and> 1 \<le> getAge (cache (addAge c ?t) ! ?t ! i)) \<and>
            (\<exists>j. getOldest ((addAge c ?t)\<lparr>hitMiss := hm\<rparr>) ?t = Some j)"
    using assms(1) ex ages by (simp add: isFull_def getOldest_def addAge_def)
  have 3: "\<exists>res. Read c r = Inr res"
    using assms(1) ex by (auto simp: Read_eq Let_def split: option.splits)
  have 4: "\<exists>res. Write c r = Inr res"
    using assms(1) ex by (auto simp: Write_eq Let_def split: option.splits)
  from 1 2 3 4 show ?thesis by blast
qed

theorem getOldest_defined_at_call_witness:
  "getIndex exMiss < length (cache exCache) \<and> cache exCache ! getIndex exMiss \<noteq> [] \<and>
   isFull ((addAge exCache (getIndex exMiss))\<lparr>hitMiss := hitMiss exCache @ [False]\<rparr>)
     (getIndex exMiss) \<and>
   getOldest ((addAge exCache (getIndex exMiss))\<lparr>hitMiss := hitMiss exCache @ [False]\<rparr>)
     (getIndex exMiss) = Some 0 \<and>
   (\<exists>res. Read exCache exMiss = Inr res)"
proof -
  have 1: "getIndex exMiss < length (cache exCache)" by (simp add: exCache_eq exMiss_eq)
  have 2: "cache exCache ! getIndex exMiss \<noteq> []" by (simp add: exCache_eq exMiss_eq)
  have 3: "isFull ((addAge exCache (getIndex exMiss))\<lparr>hitMiss := hitMiss exCache @ [False]\<rparr>)
     (getIndex exMiss)"
    by (simp add: isFull_def addAge_def exCache_eq exMiss_eq Access_addAge_def)
  have 4: "getOldest ((addAge exCache (getIndex exMiss))\<lparr>hitMiss := hitMiss exCache @ [False]\<rparr>)
     (getIndex exMiss) = Some 0"
    by (simp add: getOldest_def addAge_def exCache_eq exMiss_eq Access_addAge_def)
  from getOldest_defined_at_call [OF 1 2, of exCache 0 "hitMiss exCache @ [False]"] 1 2 3 4
  show ?thesis by blast
qed

section \<open>One slot per tag (C8)\<close>

lemma tagsUnique_addAge_loop: "tagsUnique (addAge_loop s) = tagsUnique s"
  by (simp add: tagsUnique_def)

lemma tagsUnique_invalid: "\<forall>a \<in> set s. \<not> Valid a \<Longrightarrow> tagsUnique s"
  by (simp add: tagsUnique_def)

lemma tagsUnique_new:
  assumes "tagsUnique s" and "\<not> Read_scan s (getTag x)"
  shows "tagsUnique (s[j := x])"
proof -
  have no: "\<And>i. i < length s \<Longrightarrow> Valid (s ! i) \<Longrightarrow> getTag (s ! i) \<noteq> getTag x"
    using assms(2) by (auto simp: Read_scan_iff)
  show ?thesis
    unfolding tagsUnique_def
  proof (intro allI impI)
    fix i k
    assume i: "i < length (s[j := x])" and k: "k < length (s[j := x])"
      and h: "Valid (s[j := x] ! i) \<and> Valid (s[j := x] ! k) \<and>
              getTag (s[j := x] ! i) = getTag (s[j := x] ! k)"
    show "i = k"
    proof (cases "i = j")
      case True
      show ?thesis
      proof (cases "k = j")
        case True
        with \<open>i = j\<close> show ?thesis by simp
      next
        case False
        with True i k h have "Valid (s ! k)" "getTag (s ! k) = getTag x" by simp_all
        with no [of k] k show ?thesis by simp
      qed
    next
      case False
      show ?thesis
      proof (cases "k = j")
        case True
        with False i k h have "Valid (s ! i)" "getTag (s ! i) = getTag x" by simp_all
        with no [of i] i show ?thesis by simp
      next
        case kj: False
        with False i k h assms(1) show ?thesis by (simp add: tagsUnique_def)
      qed
    qed
  qed
qed

lemma tagsUnique_setDirty:
  assumes "tagsUnique s"
  shows "tagsUnique (s[i := setDirty (s ! i)])"
proof -
  have "Valid (s[i := setDirty (s ! i)] ! k) = Valid (s ! k) \<and>
        getTag (s[i := setDirty (s ! i)] ! k) = getTag (s ! k)" if "k < length s" for k
    using that by (cases "k = i") (simp_all add: setDirty_def)
  with assms show ?thesis by (simp add: tagsUnique_def)
qed

lemma getTag_setValid [simp]: "getTag (setValid r) = getTag r"
  by (simp add: setValid_def)

lemma Read_tagsUnique:
  assumes "\<forall>s \<in> set (cache c). tagsUnique s" and "Read c r = Inr (h, r', c')"
  shows "\<forall>s \<in> set (cache c'). tagsUnique s"
proof -
  let ?t = "getIndex r"
  let ?s = "addAge_loop (cache c ! ?t)"
  have t: "?t < length (cache c)" using assms(2) by (rule Read_range)
  then have "tagsUnique (cache c ! ?t)" using assms(1) by simp
  then have u: "tagsUnique ?s" by (simp add: tagsUnique_addAge_loop)
  have n: "\<not> Read_scan ?s (getTag r) \<Longrightarrow> tagsUnique (?s[j := setValid r])" for j
    using tagsUnique_new [OF u, of "setValid r" j] by simp
  from assms(2) t obtain s' where c': "cache c' = (cache c)[?t := s']" and s': "tagsUnique s'"
    using u n by (auto simp: Read_eq Let_def split: if_splits option.splits)
  have "set (cache c') \<subseteq> insert s' (set (cache c))"
    unfolding c' by (rule set_update_subset_insert)
  with s' assms(1) show ?thesis by auto
qed

lemma Write_tagsUnique:
  assumes "\<forall>s \<in> set (cache c). tagsUnique s" and "Write c r = Inr (h, r', c')"
  shows "\<forall>s \<in> set (cache c'). tagsUnique s"
proof -
  let ?t = "getIndex r"
  let ?s = "addAge_loop (cache c ! ?t)"
  have t: "?t < length (cache c)" using assms(2) by (rule Write_range)
  then have "tagsUnique (cache c ! ?t)" using assms(1) by simp
  then have u: "tagsUnique ?s" by (simp add: tagsUnique_addAge_loop)
  have n: "\<not> Read_scan ?s (getTag r) \<Longrightarrow> tagsUnique (?s[j := setValid r])" for j
    using tagsUnique_new [OF u, of "setValid r" j] by simp
  have d: "tagsUnique (?s[i := setDirty (?s ! i)])" for i
    using u by (rule tagsUnique_setDirty)
  from assms(2) t obtain s' where c': "cache c' = (cache c)[?t := s']" and s': "tagsUnique s'"
    using d n by (auto simp: Write_eq Let_def split: if_splits option.splits)
  have "set (cache c') \<subseteq> insert s' (set (cache c))"
    unfolding c' by (rule set_update_subset_insert)
  with s' assms(1) show ?thesis by auto
qed

text \<open>
  Claim C8. In every reachable state of the cache, no set has two valid slots with the
  same tag.
\<close>

theorem reachable_tags_unique:
  assumes "reachable c"
  shows "\<forall>s \<in> set (cache c). tagsUnique s"
  using assms
proof (induction rule: reachable.induct)
  case (reach_start c)
  then show ?case by (simp add: tagsUnique_invalid)
next
  case (reach_read c r h r' c')
  then show ?case using Read_tagsUnique by blast
next
  case (reach_write c w h w' c')
  then show ?case using Write_tagsUnique by blast
next
  case (reach_other c c')
  then show ?case by simp
qed

section \<open>The processing loop\<close>

lemma processOne_skip:
  "\<not> isAccessOp (trace c ! i) \<Longrightarrow> processOne c i = Inr c"
  by (simp add: processOne_def isAccessOp_def)

lemma processOne_Read:
  assumes "getOp (trace c ! i) = ''Read''" and "Read c (trace c ! i) = Inr (h, a, k)"
  shows "processOne c i =
           Inr (k\<lparr>trace := (trace k)[i := a], hits := hits k + (if h then 1 else 0),
                  accesses := accesses k + 1\<rparr>)"
  using assms by (simp add: processOne_def Let_def)

lemma processOne_Write:
  assumes "getOp (trace c ! i) = ''Write''" and "Write c (trace c ! i) = Inr (h, a, k)"
  shows "processOne c i =
           Inr (k\<lparr>trace := (trace k)[i := a], hits := hits k + (if h then 1 else 0),
                  accesses := accesses k + 1\<rparr>)"
  using assms by (simp add: processOne_def Let_def)

lemma processOne_cases:
  assumes "processOne c i = Inr c'"
  obtains (skip) "\<not> isAccessOp (trace c ! i)" "c' = c"
  | (access) h a k where "isAccessOp (trace c ! i)"
      "Read c (trace c ! i) = Inr (h, a, k) \<or> Write c (trace c ! i) = Inr (h, a, k)"
      "c' = k\<lparr>trace := (trace k)[i := a], hits := hits k + (if h then 1 else 0),
                accesses := accesses k + 1\<rparr>"
proof (cases "getOp (trace c ! i) = ''Read''")
  case True
  with assms obtain h a k where r: "Read c (trace c ! i) = Inr (h, a, k)"
    by (auto simp: processOne_def split: sum.splits)
  from processOne_Read [OF True r] assms
  have "c' = k\<lparr>trace := (trace k)[i := a], hits := hits k + (if h then 1 else 0),
                accesses := accesses k + 1\<rparr>" by simp
  with True r show ?thesis by (intro access [of h a k]) (simp_all add: isAccessOp_def)
next
  case False
  show ?thesis
  proof (cases "getOp (trace c ! i) = ''Write''")
    case True
    with assms obtain h a k where r: "Write c (trace c ! i) = Inr (h, a, k)"
      by (auto simp: processOne_def split: sum.splits)
    from processOne_Write [OF True r] assms
    have "c' = k\<lparr>trace := (trace k)[i := a], hits := hits k + (if h then 1 else 0),
                  accesses := accesses k + 1\<rparr>" by simp
    with True r show ?thesis by (intro access [of h a k]) (simp_all add: isAccessOp_def)
  next
    case w: False
    with False assms show ?thesis by (intro skip) (simp_all add: processOne_def isAccessOp_def)
  qed
qed

lemma access_fields:
  assumes "Read c r = Inr (h, a, k) \<or> Write c r = Inr (h, a, k)"
  shows "hitMiss k = hitMiss c @ [h]" "hits k = hits c" "accesses k = accesses c"
    "trace k = trace c" "getOp a = getOp r" "length (cache k) = length (cache c)"
  using assms Read_fields [of c r h a k] Write_fields [of c r h a k] by blast+

lemma processOne_access:
  assumes "isAccessOp (trace c ! i)" and "processOne c i = Inr c'"
  shows "\<exists>h. hitMiss c' = hitMiss c @ [h] \<and> hits c' = hits c + (if h then 1 else 0) \<and>
             accesses c' = accesses c + 1"
  using assms(2)
proof (cases rule: processOne_cases)
  case skip
  with assms(1) show ?thesis by simp
next
  case (access h a k)
  show ?thesis
    unfolding access(3) using access_fields(1-3) [OF access(2)]
    by (intro exI [of _ h]) simp
qed

lemma processOne_ops:
  assumes "processOne c i = Inr c'"
  shows "map getOp (trace c') = map getOp (trace c)"
  using assms
proof (cases rule: processOne_cases)
  case skip
  then show ?thesis by simp
next
  case (access h a k)
  have "map getOp ((trace c)[i := a]) = map getOp (trace c)"
  proof (cases "i < length (trace c)")
    case True
    then show ?thesis
      using access_fields(5) [OF access(2)] by (simp add: map_update list_update_same_conv)
  next
    case False
    then have "(trace c)[i := a] = trace c" by (intro list_update_beyond) simp
    then show ?thesis by simp
  qed
  then show ?thesis
    unfolding access(3) using access_fields(4) [OF access(2)] by simp
qed

lemma processOne_trace_length:
  "processOne c i = Inr c' \<Longrightarrow> length (trace c') = length (trace c)"
  using processOne_ops [of c i c'] by (metis length_map)

lemma processOne_counts:
  assumes "countsOk c" and "processOne c i = Inr c'"
  shows "countsOk c' \<and> accesses c' = accesses c + (if isAccessOp (trace c ! i) then 1 else 0)"
proof (cases "isAccessOp (trace c ! i)")
  case True
  from processOne_access [OF True assms(2)] assms(1) True show ?thesis
    by (auto simp: countsOk_def)
next
  case False
  with assms show ?thesis by (simp add: processOne_skip)
qed

lemma processLoop_counts:
  assumes "countsOk c" and "processLoop c is = Inr c'"
    and "\<forall>i \<in> set is. i < length (trace c)"
  shows "countsOk c' \<and> map getOp (trace c') = map getOp (trace c) \<and>
         accesses c' = accesses c + length (filter (\<lambda>i. isAccessOp (trace c ! i)) is)"
  using assms
proof (induction "is" arbitrary: c)
  case Nil
  then show ?case by simp
next
  case (Cons i "is")
  from Cons.prems(2) obtain k where k: "processOne c i = Inr k" and l: "processLoop k is = Inr c'"
    by (auto split: sum.splits)
  have ck: "countsOk k" and ak: "accesses k = accesses c + (if isAccessOp (trace c ! i) then 1 else 0)"
    using processOne_counts [OF Cons.prems(1) k] by simp_all
  have ops: "map getOp (trace k) = map getOp (trace c)" using k by (rule processOne_ops)
  then have len: "length (trace k) = length (trace c)" by (metis length_map)
  have same: "isAccessOp (trace k ! j) = isAccessOp (trace c ! j)" if "j < length (trace c)" for j
  proof -
    have "getOp (trace k ! j) = map getOp (trace k) ! j" using that len by simp
    also have "\<dots> = getOp (trace c ! j)" using that by (simp add: ops)
    finally show ?thesis by (simp add: isAccessOp_def)
  qed
  have r: "\<forall>j \<in> set is. j < length (trace k)" using Cons.prems(3) len by simp
  from Cons.IH [OF ck l r]
  have 1: "countsOk c'" and 2: "map getOp (trace c') = map getOp (trace k)"
    and 3: "accesses c' = accesses k + length (filter (\<lambda>j. isAccessOp (trace k ! j)) is)"
    by simp_all
  have "filter (\<lambda>j. isAccessOp (trace k ! j)) is = filter (\<lambda>j. isAccessOp (trace c ! j)) is"
    using Cons.prems(3) same by (intro filter_cong) simp_all
  with 1 2 3 ak ops show ?case by simp
qed

lemma ctor_reachable:
  assumes "Cache_ctor s l c = Inr k"
  shows "reachable k"
proof -
  have "cache k = replicate (numSets k) (replicate s Access_default)"
    using assms by (auto simp: Cache_ctor_def split: sum.splits if_splits)
  then have "\<forall>x \<in> set (cache k). \<forall>a \<in> set x. \<not> Valid a"
    by (auto simp: Access_default_def)
  then show ?thesis by (rule reach_start)
qed

lemma parseLines_cache: "parseLines c ls = Inr c' \<Longrightarrow> cache c' = cache c"
proof (induction ls arbitrary: c)
  case Nil
  then show ?case by simp
next
  case (Cons x ls)
  then show ?case by (cases "parseLine c x") (auto split: option.splits)
qed

lemma processOne_reachable:
  assumes "reachable c" and "processOne c i = Inr c'"
  shows "reachable c'"
  using assms(2)
proof (cases rule: processOne_cases)
  case skip
  with assms(1) show ?thesis by simp
next
  case (access h a k)
  from access(2) assms(1) have "reachable k"
    using reach_read reach_write by blast
  moreover have "cache c' = cache k" by (simp add: access(3))
  ultimately show ?thesis by (rule reach_other)
qed

lemma processLoop_reachable:
  "reachable c \<Longrightarrow> processLoop c is = Inr c' \<Longrightarrow> reachable c'"
proof (induction "is" arbitrary: c)
  case Nil
  then show ?case by simp
next
  case (Cons i "is")
  from Cons.prems(2) obtain k where k: "processOne c i = Inr k" and l: "processLoop k is = Inr c'"
    by (auto split: sum.splits)
  from Cons.prems(1) k have "reachable k" by (rule processOne_reachable)
  then show ?case using l by (rule Cons.IH)
qed

lemma simulate_reachable:
  assumes "simulate s l c ls = Inr k"
  shows "reachable k"
proof -
  from assms obtain c0 c1 where c0: "Cache_ctor s l c = Inr c0"
    and c1: "parseLines c0 ls = Inr c1"
    and k: "processLoop c1 [0..<length (trace c1)] = Inr k"
    by (auto simp: simulate_def operator_call_def split: sum.splits)
  have "reachable c0" using c0 by (rule ctor_reachable)
  then have "reachable c1" using parseLines_cache [OF c1] by (rule reach_other)
  then show ?thesis using k by (rule processLoop_reachable)
qed

theorem reachable_tags_unique_witness:
  "reachable exCache \<and> tagsUnique (cache exCache ! 0) \<and>
   map Valid (cache exCache ! 0) = [True, True] \<and> map getTag (cache exCache ! 0) = [0, 1]"
proof -
  have r: "reachable exCache" using exSim by (rule simulate_reachable)
  have "cache exCache ! 0 \<in> set (cache exCache)" by (simp add: exCache_eq)
  with reachable_tags_unique [OF r] have "tagsUnique (cache exCache ! 0)" by blast
  with r show ?thesis by (simp add: exCache_eq)
qed

section \<open>A simulation runs to its end\<close>

lemma ctor_cache:
  assumes "Cache_ctor s l c = Inr k"
  shows "cache k = replicate (numSets k) (replicate s Access_default)" and "s \<noteq> 0"
    and "trace k = []"
  using assms by (auto simp: Cache_ctor_def split: sum.splits if_splits)

lemma calcIndex_bound: "calcIndex c s = Inr i \<Longrightarrow> i < numSets c"
  by (auto simp: calcIndex_def split: sum.splits if_splits)

lemma parseLine_index:
  assumes "parseLine c s = Inr (Some a)"
  shows "getIndex a < numSets c"
  using assms
  by (auto simp: parseLine_def decodeAddress_def Let_def dest: calcIndex_bound
      split: list.splits sum.splits)

lemma parseLines_runnable:
  assumes "parseLines c ls = Inr c'" and "numSets c = length (cache c)"
    and "\<forall>a \<in> set (trace c). getIndex a < length (cache c)"
  shows "\<forall>a \<in> set (trace c'). getIndex a < length (cache c')"
  using assms
proof (induction ls arbitrary: c)
  case Nil
  then show ?case by simp
next
  case (Cons x ls)
  show ?case
  proof (cases "parseLine c x")
    case (Inl e)
    with Cons.prems(1) show ?thesis by simp
  next
    case (Inr res)
    show ?thesis
    proof (cases res)
      case None
      with Inr Cons.prems show ?thesis by (intro Cons.IH [of c]) simp_all
    next
      case (Some a)
      have "getIndex a < length (cache c)"
        using parseLine_index [of c x a] Inr Some Cons.prems(2) by simp
      with Inr Some Cons.prems show ?thesis
        by (intro Cons.IH [of "c\<lparr>trace := trace c @ [a]\<rparr>"]) auto
    qed
  qed
qed

lemma access_sets:
  assumes "Read c r = Inr (h, a, k) \<or> Write c r = Inr (h, a, k)"
  shows "map length (cache k) = map length (cache c)" and "getIndex a = getIndex r"
proof -
  let ?t = "getIndex r"
  have t: "?t < length (cache c)" using assms Read_range Write_range by blast
  have u: "map length ((cache c)[?t := x]) = map length (cache c)"
    if "length x = length (cache c ! ?t)" for x
    using that t by (simp add: map_update list_update_same_conv)
  from assms t obtain x where "cache k = (cache c)[?t := x]" "length x = length (cache c ! ?t)"
    by (auto simp: Read_eq Write_eq Let_def split: if_splits option.splits)
  then show "map length (cache k) = map length (cache c)" using u by simp
  from assms t show "getIndex a = getIndex r"
    by (auto simp: Read_eq Write_eq Let_def setValid_def split: if_splits option.splits)
qed

lemma nonempty_by_lengths:
  "map length xs = map length ys \<Longrightarrow> (\<forall>x \<in> set xs. x \<noteq> []) = (\<forall>y \<in> set ys. y \<noteq> [])"
proof -
  assume "map length xs = map length ys"
  then have "set (map length xs) = set (map length ys)" by simp
  then have "(0 \<in> length ` set xs) = (0 \<in> length ` set ys)" by simp
  then show ?thesis by (auto simp: image_iff)
qed

lemma processOne_runnable:
  assumes "runnable c" and "processOne c i = Inr c'"
  shows "runnable c'"
  using assms(2)
proof (cases rule: processOne_cases)
  case skip
  with assms(1) show ?thesis by simp
next
  case (access h a k)
  have l: "map length (cache k) = map length (cache c)" and g: "getIndex a = getIndex (trace c ! i)"
    using access_sets [OF access(2)] by simp_all
  have len: "length (cache k) = length (cache c)" using l by (metis length_map)
  have tr: "trace k = trace c" using access_fields(4) [OF access(2)] .
  have ne: "\<forall>x \<in> set (cache k). x \<noteq> []"
    using nonempty_by_lengths [OF l] assms(1) by (simp add: runnable_def)
  have "\<forall>b \<in> set ((trace c)[i := a]). getIndex b < length (cache c)"
  proof
    fix b assume "b \<in> set ((trace c)[i := a])"
    then have "b \<in> insert a (set (trace c))" using set_update_subset_insert by fastforce
    moreover have "getIndex a < length (cache c)"
      using access(2) g Read_range Write_range by metis
    ultimately show "getIndex b < length (cache c)" using assms(1) by (auto simp: runnable_def)
  qed
  with ne show ?thesis by (simp add: runnable_def access(3) tr len)
qed

lemma processOne_completes:
  assumes "runnable c" and "i < length (trace c)"
  shows "\<exists>c'. processOne c i = Inr c'"
proof -
  let ?r = "trace c ! i"
  have m: "?r \<in> set (trace c)" using assms(2) by simp
  then have t: "getIndex ?r < length (cache c)" using assms(1) by (simp add: runnable_def)
  then have "cache c ! getIndex ?r \<in> set (cache c)" by simp
  then have ne: "cache c ! getIndex ?r \<noteq> []" using assms(1) by (simp add: runnable_def)
  have ex: "isFull_loop (addAge_loop (cache c ! getIndex ?r)) \<Longrightarrow>
      \<exists>j. getOldest_loop (addAge_loop (cache c ! getIndex ?r)) 0 0 None = Some j"
    using getOldest_loop_full_aged [OF ne] by simp
  have r: "\<exists>h a k. Read c ?r = Inr (h, a, k)"
    using t ex by (auto simp: Read_eq Let_def split: option.splits)
  have w: "\<exists>h a k. Write c ?r = Inr (h, a, k)"
    using t ex by (auto simp: Write_eq Let_def split: option.splits)
  show ?thesis
  proof (cases "getOp ?r = ''Read''")
    case True
    from r obtain h a k where "Read c ?r = Inr (h, a, k)" by blast
    from processOne_Read [OF True this] show ?thesis by blast
  next
    case False
    show ?thesis
    proof (cases "getOp ?r = ''Write''")
      case True
      from w obtain h a k where "Write c ?r = Inr (h, a, k)" by blast
      from processOne_Write [OF True this] show ?thesis by blast
    next
      case nw: False
      with False show ?thesis by (simp add: processOne_def)
    qed
  qed
qed

lemma processLoop_completes:
  assumes "runnable c" and "\<forall>i \<in> set is. i < length (trace c)"
  shows "\<exists>c'. processLoop c is = Inr c'"
  using assms
proof (induction "is" arbitrary: c)
  case Nil
  then show ?case by simp
next
  case (Cons i "is")
  from processOne_completes [OF Cons.prems(1)] Cons.prems(2)
  obtain k where k: "processOne c i = Inr k" by auto
  have rk: "runnable k" using Cons.prems(1) k by (rule processOne_runnable)
  have "length (trace k) = length (trace c)" using k by (rule processOne_trace_length)
  with Cons.prems(2) have "\<forall>j \<in> set is. j < length (trace k)" by simp
  from Cons.IH [OF rk this] k show ?case by simp
qed

text \<open>
  Once the cache is built and the lines of the trace are parsed, the second loop of
  \<open>operator()\<close> runs to its end: no access indexes \<open>cache_\<close> out of range and
  \<open>getOldest\<close> never returns its local unassigned.
\<close>

lemma simulation_completes:
  assumes "Cache_ctor s l c = Inr k0" and "parseLines k0 ls = Inr k1"
  shows "\<exists>k. simulate s l c ls = Inr k"
proof -
  have c0: "cache k0 = replicate (numSets k0) (replicate s Access_default)" and s: "s \<noteq> 0"
    and t0: "trace k0 = []"
    using ctor_cache [OF assms(1)] by simp_all
  have n: "numSets k0 = length (cache k0)" by (simp add: c0)
  have tr: "\<forall>a \<in> set (trace k1). getIndex a < length (cache k1)"
    using assms(2) n by (rule parseLines_runnable) (simp add: t0)
  have "cache k1 = cache k0" using assms(2) by (rule parseLines_cache)
  then have "\<forall>x \<in> set (cache k1). x \<noteq> []" using s by (simp add: c0)
  with tr have "runnable k1" by (simp add: runnable_def)
  then have "\<exists>k. processLoop k1 [0..<length (trace k1)] = Inr k"
    by (rule processLoop_completes) simp
  then show ?thesis by (simp add: simulate_def operator_call_def assms)
qed

text \<open>The records of the trace keep age 0 and stay clean all through a simulation.\<close>

lemma access_keeps:
  assumes "Read c r = Inr (h, a, k) \<or> Write c r = Inr (h, a, k)"
  shows "fresh a = fresh r"
proof -
  have t: "getIndex r < length (cache c)" using assms Read_range Write_range by blast
  from assms t have "a = r \<or> a = setValid r"
    by (auto simp: Read_eq Write_eq Let_def split: if_splits option.splits)
  then show ?thesis by (auto simp: fresh_def setValid_def)
qed

lemma parseLines_fresh:
  assumes "parseLines c ls = Inr c'" and "\<forall>a \<in> set (trace c). fresh a"
  shows "\<forall>a \<in> set (trace c'). fresh a"
  using assms
proof (induction ls arbitrary: c)
  case Nil
  then show ?case by simp
next
  case (Cons x ls)
  show ?case
  proof (cases "parseLine c x")
    case (Inl e)
    with Cons.prems(1) show ?thesis by simp
  next
    case (Inr res)
    show ?thesis
    proof (cases res)
      case None
      with Inr Cons.prems show ?thesis by (intro Cons.IH [of c]) simp_all
    next
      case (Some a)
      have "fresh a" using parseLine_fresh [of c x a] Inr Some by (simp add: fresh_def)
      with Inr Some Cons.prems show ?thesis
        by (intro Cons.IH [of "c\<lparr>trace := trace c @ [a]\<rparr>"]) auto
    qed
  qed
qed

lemma processOne_fresh:
  assumes "processOne c i = Inr c'" and "\<forall>a \<in> set (trace c). fresh a"
    and "i < length (trace c)"
  shows "\<forall>a \<in> set (trace c'). fresh a"
  using assms(1)
proof (cases rule: processOne_cases)
  case skip
  with assms(2) show ?thesis by simp
next
  case (access h a k)
  have "fresh (trace c ! i)" using assms(2,3) by simp
  then have fa: "fresh a" using access_keeps [OF access(2)] by simp
  have tr: "trace k = trace c" using access_fields(4) [OF access(2)] .
  have "set ((trace c)[i := a]) \<subseteq> insert a (set (trace c))" by (rule set_update_subset_insert)
  with fa assms(2) show ?thesis by (auto simp: access(3) tr)
qed

lemma processLoop_fresh:
  assumes "processLoop c is = Inr c'" and "\<forall>a \<in> set (trace c). fresh a"
    and "\<forall>i \<in> set is. i < length (trace c)"
  shows "\<forall>a \<in> set (trace c'). fresh a"
  using assms
proof (induction "is" arbitrary: c)
  case Nil
  then show ?case by simp
next
  case (Cons i "is")
  from Cons.prems(1) obtain k where k: "processOne c i = Inr k" and l: "processLoop k is = Inr c'"
    by (auto split: sum.splits)
  have fk: "\<forall>a \<in> set (trace k). fresh a"
    using k Cons.prems(2) by (rule processOne_fresh) (use Cons.prems(3) in simp)
  have "length (trace k) = length (trace c)" using k by (rule processOne_trace_length)
  with Cons.prems(3) have "\<forall>j \<in> set is. j < length (trace k)" by simp
  from Cons.IH [OF l fk this] show ?case .
qed

section \<open>Counters and outcomes (C7)\<close>

text \<open>
  What the second loop of \<open>operator()\<close> keeps. From a state whose counters are in step
  with the outcomes, after any number of positions of the trace processed: there are as
  many outcomes as accesses counted, the hits are at most the accesses, hits and misses
  add up to the accesses, the trace keeps its length, and the accesses counted are the
  records processed whose operation is \<open>Read\<close> or \<open>Write\<close>.
\<close>

lemma counters_follow_outcomes:
  assumes "countsOk c" and "processLoop c is = Inr c'"
    and "\<forall>i \<in> set is. i < length (trace c)"
  shows "length (hitMiss c') = accesses c' \<and> hits c' \<le> accesses c' \<and>
         hits c' + length (filter (\<lambda>h. \<not> h) (hitMiss c')) = accesses c' \<and>
         length (trace c') = length (trace c) \<and>
         accesses c' = accesses c + length (filter (\<lambda>i. isAccessOp (trace c ! i)) is) \<and>
         ((\<forall>i \<in> set is. isAccessOp (trace c ! i)) \<longrightarrow> accesses c' = accesses c + length is)"
proof -
  from processLoop_counts [OF assms]
  have ok: "countsOk c'" and ops: "map getOp (trace c') = map getOp (trace c)"
    and acc: "accesses c' = accesses c + length (filter (\<lambda>i. isAccessOp (trace c ! i)) is)"
    by simp_all
  have 1: "length (hitMiss c') = accesses c'" using ok by (simp add: countsOk_def)
  have h: "hits c' = length (filter (\<lambda>h. h) (hitMiss c'))" using ok by (simp add: countsOk_def)
  have 2: "hits c' \<le> accesses c'" unfolding h 1 [symmetric] by (rule length_filter_le)
  have 3: "hits c' + length (filter (\<lambda>h. \<not> h) (hitMiss c')) = accesses c'"
    unfolding h 1 [symmetric] by (rule sum_length_filter_compl)
  have 4: "length (trace c') = length (trace c)" using ops by (metis length_map)
  have 5: "(\<forall>i \<in> set is. isAccessOp (trace c ! i)) \<longrightarrow> accesses c' = accesses c + length is"
    by (simp add: acc)
  from 1 2 3 4 acc 5 show ?thesis by blast
qed

lemma counters_follow_outcomes_example:
  "countsOk exParsed \<and> processLoop exParsed [0, 1] = Inr exCache \<and>
   isAccessOp (trace exParsed ! 0) \<and> isAccessOp (trace exParsed ! 1) \<and>
   length (trace exParsed) = 2 \<and> accesses exParsed = 0 \<and>
   accesses exCache = 2 \<and> length (hitMiss exCache) = 2 \<and> length (trace exCache) = 2 \<and>
   hits exCache = 0"
proof -
  have 1: "countsOk exParsed" by (simp add: countsOk_def exParsed_eq)
  have 2: "\<forall>i \<in> set [0, 1]. i < length (trace exParsed)" by (simp add: exParsed_eq)
  have 3: "isAccessOp (trace exParsed ! 0)" "isAccessOp (trace exParsed ! 1)"
    by (simp_all add: isAccessOp_def exParsed_eq)
  have 4: "length (trace exParsed) = 2" "accesses exParsed = 0" by (simp_all add: exParsed_eq)
  have 5: "hits exCache = 0" by (simp add: exCache_eq)
  from counters_follow_outcomes [OF 1 exParsed_run 2] 1 exParsed_run 3 4 5
  show ?thesis by simp
qed

text \<open>
  \<open>Display\<close> prints its rows exactly when \<open>hitMiss_\<close> has an outcome for every record
  of \<open>trace_\<close>: it relies on the two vectors being in step.
\<close>

lemma Display_loop_defined:
  "(\<exists>rows. Display_loop c ns = Inr rows) = (\<forall>n \<in> set ns. n < length (hitMiss c))"
  by (induction ns) (auto split: sum.splits)

lemma Display_defined:
  "(\<exists>rows. Display c = Inr rows) = (length (trace c) \<le> length (hitMiss c))"
proof -
  have "(\<forall>n \<in> set [0..<length (trace c)]. n < length (hitMiss c)) =
        (length (trace c) \<le> length (hitMiss c))"
    by (cases "length (trace c)") auto
  then show ?thesis by (simp add: Display_def Display_loop_defined)
qed

lemma Display_example:
  "Display exCache = Inr [(0, trace exCache ! 0, False), (1, trace exCache ! 1, False)]"
  by (simp add: Display_def exCache_eq upt_rec)

text \<open>
  Claim C7. The outcomes, the access counter and the processed trace have the same
  length. The code does not keep this for the trace of the one line \<open>X:4:00000000\<close>
  on the cache of associativity 1, line size 4 and size 16: the first loop of
  \<open>operator()\<close> pushes a record for the line with an empty operation (line 208), the
  second loop passes over it, and the simulation ends with one record in \<open>trace_\<close>,
  no access counted and no outcome. \<open>Display\<close>, which reads one outcome for every
  record, then reads \<open>hitMiss_[0]\<close> of an empty vector.
\<close>

theorem unrecognised_op_breaks_Display:
  "\<not> isl (simulate 1 4 16 [''X:4:00000000'']) \<and>
   length (trace (projr (simulate 1 4 16 [''X:4:00000000'']))) = 1 \<and>
   getOp (trace (projr (simulate 1 4 16 [''X:4:00000000''])) ! 0) = [] \<and>
   accesses (projr (simulate 1 4 16 [''X:4:00000000''])) = 0 \<and>
   hitMiss (projr (simulate 1 4 16 [''X:4:00000000''])) = [] \<and>
   accesses (projr (simulate 1 4 16 [''X:4:00000000''])) \<noteq>
     length (trace (projr (simulate 1 4 16 [''X:4:00000000'']))) \<and>
   Display (projr (simulate 1 4 16 [''X:4:00000000''])) = Inl UndefinedBehaviour \<and>
   simulate_Display 1 4 16 [''X:4:00000000''] = Inl UndefinedBehaviour"
  apply (simp add: simulate_Display_def simulate_def ctor_example operator_call_def)
  apply (simp add: parseLine_def tokens_def decodeAddress_def setAddress_def calcIndex_def
      blockNum_def calcOffset_def calcTag_def substr_def sub_size_t_def hexBits_def
      binStringToInt_def Access_op_def Let_def)
  apply (simp add: processOne_def Display_def)
  done

end
